theory Spec2Isabelle
  imports Main
begin

section \<open>Data model\<close>

text \<open>
  An article is the dictionary that \<open>fetch_rss\<close> builds. Python strings are modelled as
  \<open>string\<close>, the UTF-8 bytes of the text, on which equality is equality of the texts.
  The field \<open>date\<close> is always the output of \<open>strftime("%Y-%m-%d")\<close> (or \<open>TODAY\<close>, which
  is one too); it is modelled by the day number of that calendar day, so that equality of
  two date strings is equality of the numbers, the order that \<open>strptime\<close> induces is the
  order of the numbers, and \<open>timedelta(days=k)\<close> is subtraction of \<open>k\<close>.
  The key \<open>category\<close> is absent until \<open>classify_articles\<close> has run.
\<close>

record article =
  title :: string
  url :: string
  source :: string
  lang :: string
  date :: int
  category :: "string option"

definition CATEGORIES :: "string list" where
  "CATEGORIES =
    [ [CHR ''L'', CHR ''L'', CHR ''M'', CHR 0xE3, CHR 0x83, CHR 0xBB, CHR 0xE3, CHR 0x83, CHR 0x81,
       CHR 0xE3, CHR 0x83, CHR 0xA3, CHR 0xE3, CHR 0x83, CHR 0x83, CHR 0xE3, CHR 0x83, CHR 0x88,
       CHR ''A'', CHR ''I''],
      [CHR 0xE7, CHR 0x94, CHR 0xBB, CHR 0xE5, CHR 0x83, CHR 0x8F, CHR 0xE3, CHR 0x83, CHR 0xBB,
       CHR 0xE5, CHR 0x8B, CHR 0x95, CHR 0xE7, CHR 0x94, CHR 0xBB, CHR 0xE7, CHR 0x94, CHR 0x9F,
       CHR 0xE6, CHR 0x88, CHR 0x90],
      [CHR 0xE9, CHR 0x9F, CHR 0xB3, CHR 0xE5, CHR 0xA3, CHR 0xB0, CHR 0xE3, CHR 0x83, CHR 0xBB,
       CHR 0xE9, CHR 0x9F, CHR 0xB3, CHR 0xE6, CHR 0xA5, CHR 0xBD, CHR ''A'', CHR ''I''],
      [CHR 0xE3, CHR 0x83, CHR 0xAD, CHR 0xE3, CHR 0x83, CHR 0x9C, CHR 0xE3, CHR 0x83, CHR 0x86,
       CHR 0xE3, CHR 0x82, CHR 0xA3, CHR 0xE3, CHR 0x82, CHR 0xAF, CHR 0xE3, CHR 0x82, CHR 0xB9,
       CHR 0xE3, CHR 0x83, CHR 0xBB, CHR 0xE8, CHR 0x87, CHR 0xAA, CHR 0xE5, CHR 0x8B, CHR 0x95,
       CHR 0xE9, CHR 0x81, CHR 0x8B, CHR 0xE8, CHR 0xBB, CHR 0xA2],
      [CHR ''A'', CHR ''I'', CHR 0xE8, CHR 0xA6, CHR 0x8F, CHR 0xE5, CHR 0x88, CHR 0xB6, CHR 0xE3,
       CHR 0x83, CHR 0xBB, CHR 0xE6, CHR 0x94, CHR 0xBF, CHR 0xE7, CHR 0xAD, CHR 0x96],
      [CHR ''A'', CHR ''I'', CHR 0xE5, CHR 0x80, CHR 0xAB, CHR 0xE7, CHR 0x90, CHR 0x86, CHR 0xE3,
       CHR 0x83, CHR 0xBB, CHR 0xE5, CHR 0xAE, CHR 0x89, CHR 0xE5, CHR 0x85, CHR 0xA8, CHR 0xE6,
       CHR 0x80, CHR 0xA7],
      [CHR 0xE7, CHR 0xA0, CHR 0x94, CHR 0xE7, CHR 0xA9, CHR 0xB6, CHR 0xE3, CHR 0x83, CHR 0xBB,
       CHR 0xE8, CHR 0xAB, CHR 0x96, CHR 0xE6, CHR 0x96, CHR 0x87],
      [CHR ''A'', CHR ''I'', CHR 0xE8, CHR 0xA3, CHR 0xBD, CHR 0xE5, CHR 0x93, CHR 0x81, CHR 0xE3,
       CHR 0x83, CHR 0xBB, CHR 0xE3, CHR 0x83, CHR 0x84, CHR 0xE3, CHR 0x83, CHR 0xBC, CHR 0xE3,
       CHR 0x83, CHR 0xAB],
      [CHR 0xE4, CHR 0xBC, CHR 0x81, CHR 0xE6, CHR 0xA5, CHR 0xAD, CHR 0xE3, CHR 0x83, CHR 0xBB,
       CHR 0xE8, CHR 0xB3, CHR 0x87, CHR 0xE9, CHR 0x87, CHR 0x91, CHR 0xE8, CHR 0xAA, CHR 0xBF,
       CHR 0xE9, CHR 0x81, CHR 0x94],
      [CHR 0xE5, CHR 0x8C, CHR 0xBB, CHR 0xE7, CHR 0x99, CHR 0x82, CHR 0xE3, CHR 0x83, CHR 0xBB,
       CHR 0xE7, CHR 0xA7, CHR 0x91, CHR 0xE5, CHR 0xAD, CHR 0xA6, CHR 0xE5, CHR 0xBF, CHR 0x9C,
       CHR 0xE7, CHR 0x94, CHR 0xA8] ]"

text \<open>
  The literal that the source writes wherever no label of the classifier is usable
  (lines 128, 173, 176, 180, 195): the eighth entry of \<open>CATEGORIES\<close>.
\<close>

definition FALLBACK :: string where
  "FALLBACK =
     [CHR ''A'', CHR ''I'', CHR 0xE8, CHR 0xA3, CHR 0xBD, CHR 0xE5, CHR 0x93, CHR 0x81, CHR 0xE3,
      CHR 0x83, CHR 0xBB, CHR 0xE3, CHR 0x83, CHR 0x84, CHR 0xE3, CHR 0x83, CHR 0xBC, CHR 0xE3,
      CHR 0x83, CHR 0xAB]"

section \<open>Recency and deduplication (\<open>collect_articles\<close>, lines 99 to 117)\<close>

text \<open>
  The input \<open>all_articles\<close> is what the fetching loop of lines 92 to 97 has gathered; the
  run is taken to lie within one day of the JST clock, so that \<open>yesterday\<close> is the day
  before \<open>TODAY\<close>.
\<close>

definition primary_window :: "int \<Rightarrow> article list \<Rightarrow> article list" where
  "primary_window today all_articles =
     filter (\<lambda>a. date a = today \<or> date a = today - 1) all_articles"

definition recent_articles :: "int \<Rightarrow> article list \<Rightarrow> article list" where
  "recent_articles today all_articles =
     (let recent = primary_window today all_articles
      in if length recent < 5
         then (let cutoff = today - 3 in filter (\<lambda>a. date a \<ge> cutoff) all_articles)
         else recent)"

fun dedup_urls :: "string set \<Rightarrow> article list \<Rightarrow> article list" where
  "dedup_urls seen_urls [] = []"
| "dedup_urls seen_urls (a # as) =
     (if url a \<notin> seen_urls then a # dedup_urls (insert (url a) seen_urls) as
      else dedup_urls seen_urls as)"

definition collect_articles :: "int \<Rightarrow> article list \<Rightarrow> article list" where
  "collect_articles today all_articles = dedup_urls {} (recent_articles today all_articles)"

section \<open>Balanced selection (\<open>select_top_articles\<close>)\<close>

definition cat_of :: "article \<Rightarrow> string" where
  "cat_of a = (case category a of None \<Rightarrow> FALLBACK | Some c \<Rightarrow> c)"

text \<open>
  \<open>by_cat\<close> is a dictionary whose order of insertion the code relies on: an association
  list, a new key going to the end and an article to the end of its key's list.
\<close>

fun add_to_cat :: "string \<Rightarrow> article \<Rightarrow> (string \<times> article list) list \<Rightarrow> (string \<times> article list) list" where
  "add_to_cat cat a [] = [(cat, [a])]"
| "add_to_cat cat a ((k, g) # by_cat) =
     (if k = cat then (k, g @ [a]) # by_cat else (k, g) # add_to_cat cat a by_cat)"

fun group_by_cat :: "(string \<times> article list) list \<Rightarrow> article list \<Rightarrow> (string \<times> article list) list" where
  "group_by_cat by_cat [] = by_cat"
| "group_by_cat by_cat (a # as) = group_by_cat (add_to_cat (cat_of a) a by_cat) as"

text \<open>
  One pass of the inner \<open>for cat in cat_keys\<close>: the state is \<open>selected\<close>, \<open>idx_per_cat\<close>
  and \<open>added\<close>. The keys come from \<open>by_cat\<close> itself, so the pass runs over its items and
  \<open>by_cat[cat]\<close> is the list beside the key. \<open>idx_per_cat\<close> starts at 0 on every key.
\<close>

fun sweep :: "int \<Rightarrow> (string \<times> article list) list \<Rightarrow> article list \<times> (string \<Rightarrow> nat) \<times> bool
    \<Rightarrow> article list \<times> (string \<Rightarrow> nat) \<times> bool" where
  "sweep max_count [] st = st"
| "sweep max_count ((cat, g) # rest) (selected, idx_per_cat, added) =
     (if idx_per_cat cat < length g \<and> int (length selected) < max_count
      then sweep max_count rest
             (selected @ [g ! idx_per_cat cat], idx_per_cat(cat := idx_per_cat cat + 1), True)
      else sweep max_count rest (selected, idx_per_cat, added))"

lemma sweep_grows:
  "sweep max_count by_cat (selected, idx, added) = (selected', idx', added') \<Longrightarrow>
     length selected \<le> length selected' \<and> (added' \<longrightarrow> added \<or> length selected < length selected')"
proof (induction by_cat arbitrary: selected idx added)
  case Nil
  then show ?case by simp
next
  case (Cons p rest)
  obtain cat g where p: "p = (cat, g)" by (cases p)
  show ?case
  proof (cases "idx cat < length g \<and> int (length selected) < max_count")
    case True
    with Cons.prems p have
      "sweep max_count rest (selected @ [g ! idx cat], idx(cat := idx cat + 1), True)
         = (selected', idx', added')" by simp
    from Cons.IH [OF this] show ?thesis by simp
  next
    case False
    with Cons.prems p have "sweep max_count rest (selected, idx, added) = (selected', idx', added')"
      by auto
    from Cons.IH [OF this] show ?thesis .
  qed
qed

function round_robin :: "int \<Rightarrow> (string \<times> article list) list \<Rightarrow> article list \<times> (string \<Rightarrow> nat)
    \<Rightarrow> article list" where
  "round_robin max_count by_cat (selected, idx_per_cat) =
     (if int (length selected) < max_count
      then (case sweep max_count by_cat (selected, idx_per_cat, False) of
              (selected', idx_per_cat', added) \<Rightarrow>
                if \<not> added then selected'
                else round_robin max_count by_cat (selected', idx_per_cat'))
      else selected)"
  by pat_completeness auto
termination
  apply (relation "measure (\<lambda>(max_count, by_cat, selected, idx). nat (max_count - int (length selected)))")
   apply simp
  apply (auto dest!: sweep_grows [OF sym])
  done

declare round_robin.simps [simp del]

definition select_top_articles :: "article list \<Rightarrow> int \<Rightarrow> article list" where
  "select_top_articles articles max_count =
     (if int (length articles) \<le> max_count then articles
      else round_robin max_count (group_by_cat [] articles) ([], \<lambda>_. 0))"

section \<open>Classification (\<open>classify_articles\<close>)\<close>

text \<open>
  The classifier is outside the program. What one request of the loop comes back with is
  one of three things: an exception anywhere inside the \<open>try\<close> (transport, an empty
  \<open>content\<close>, \<open>json.loads\<close> failing), a text in which the regular expression finds no
  bracketed part, or the list that \<open>json.loads\<close> returns. An element of that list is a
  string or some other JSON value; the latter is equal to no category.
\<close>

datatype json = JString string | JOther

datatype response = Raised | NoMatch | Cats "json list"

fun in_CATEGORIES :: "json \<Rightarrow> bool" where
  "in_CATEGORIES (JString s) = (s \<in> set CATEGORIES)"
| "in_CATEGORIES JOther = False"

fun label_of :: "json \<Rightarrow> string" where
  "label_of (JString s) = s"
| "label_of JOther = FALLBACK"

text \<open>Lines 170 to 173, for the article at position \<open>idx\<close> of its batch.\<close>

definition assign_label :: "json list \<Rightarrow> nat \<Rightarrow> article \<Rightarrow> article" where
  "assign_label cats idx a =
     (if idx < length cats \<and> in_CATEGORIES (cats ! idx)
      then a\<lparr>category := Some (label_of (cats ! idx))\<rparr>
      else a\<lparr>category := Some FALLBACK\<rparr>)"

fun assign_batch :: "response \<Rightarrow> article list \<Rightarrow> article list" where
  "assign_batch (Cats cats) batch = map (\<lambda>(idx, a). assign_label cats idx a) (enumerate 0 batch)"
| "assign_batch NoMatch batch = map (\<lambda>a. a\<lparr>category := Some FALLBACK\<rparr>) batch"
| "assign_batch Raised batch = map (\<lambda>a. a\<lparr>category := Some FALLBACK\<rparr>) batch"

lemma length_assign_batch [simp]: "length (assign_batch r batch) = length batch"
  by (cases r) simp_all

definition batch_size :: nat where
  "batch_size = 20"

text \<open>
  The loop \<open>for i in range(0, len(articles), batch_size)\<close>. The articles of the slice are
  the objects of the list, so assigning to them changes the list at the positions from
  \<open>i\<close> on. \<open>respond i batch\<close> is what the request made at position \<open>i\<close> for \<open>batch\<close>
  comes back with.
\<close>

function classify_from :: "(nat \<Rightarrow> article list \<Rightarrow> response) \<Rightarrow> nat \<Rightarrow> article list \<Rightarrow> article list" where
  "classify_from respond i articles =
     (if i < length articles
      then (let batch = take batch_size (drop i articles)
            in classify_from respond (i + batch_size)
                 (take i articles @ assign_batch (respond i batch) batch
                    @ drop (i + batch_size) articles))
      else articles)"
  by pat_completeness auto
termination
  by (relation "measure (\<lambda>(respond, i, articles). length articles - i)")
     (auto simp: batch_size_def)

declare classify_from.simps [simp del]

definition classify_articles ::
    "string option \<Rightarrow> (nat \<Rightarrow> article list \<Rightarrow> response) \<Rightarrow> article list \<Rightarrow> article list" where
  "classify_articles api_key respond articles =
     (if api_key = None \<or> api_key = Some []
      then map (\<lambda>a. a\<lparr>category := Some FALLBACK\<rparr>) articles
      else classify_from respond 0 articles)"

text \<open>The number of requests the loop makes: the length of \<open>range(0, len(articles), 20)\<close>.\<close>

definition classify_requests :: "string option \<Rightarrow> article list \<Rightarrow> nat" where
  "classify_requests api_key articles =
     (if api_key = None \<or> api_key = Some [] then 0
      else (length articles + batch_size - 1) div batch_size)"

section \<open>Archive (\<open>save_articles\<close>, \<open>load_recent_articles\<close>)\<close>

text \<open>
  A file of \<open>ARTICLES_DIR\<close> that matches \<open>*.json\<close> is given by its stem and by what
  \<open>json.load\<close> makes of it. A stem that \<open>strptime\<close> accepts is given by the day it
  denotes, any other one by its text. The directory is the list of these files in the
  order in which \<open>sorted(ARTICLES_DIR.glob("*.json"))\<close> yields them.
  Instants are microseconds on the JST clock, day \<open>d\<close> beginning at \<open>d * usec_per_day\<close>.
\<close>

datatype stem = DateStem int | OtherStem string

datatype file_content = Parsed "article list" | Unparseable

datatype error = JSONDecodeError

type_synonym directory = "(stem \<times> file_content) list"

definition usec_per_day :: int where
  "usec_per_day = 86400000000"

definition KEEP_DAYS :: int where
  "KEEP_DAYS = 7"

text \<open>
  \<open>open(path, "w")\<close> and \<open>json.dump\<close>: the file is replaced if it is there and created if
  not. A created file is put last: its place among the others has no effect on what
  \<open>load_loop\<close> returns, since the file just written is neither expired nor unparseable.
\<close>

fun write_file :: "stem \<Rightarrow> file_content \<Rightarrow> directory \<Rightarrow> directory" where
  "write_file s c [] = [(s, c)]"
| "write_file s c ((k, v) # files) =
     (if k = s then (s, c) # files else (k, v) # write_file s c files)"

definition save_articles :: "article list \<Rightarrow> int \<Rightarrow> directory \<Rightarrow> directory" where
  "save_articles articles date_str files = write_file (DateStem date_str) (Parsed articles) files"

text \<open>
  The loop of \<open>load_recent_articles\<close> over the remaining paths, with \<open>all_articles\<close> as
  built so far. It returns the files that are left in the directory and either the
  exception that ended the loop or the finished dictionary.
\<close>

fun load_loop :: "int \<Rightarrow> directory \<Rightarrow> (stem \<rightharpoonup> article list)
    \<Rightarrow> directory \<times> (error + (stem \<rightharpoonup> article list))" where
  "load_loop cutoff [] all_articles = ([], Inr all_articles)"
| "load_loop cutoff ((OtherStem n, c) # paths) all_articles =
     (case load_loop cutoff paths all_articles of
        (files, r) \<Rightarrow> ((OtherStem n, c) # files, r))"
| "load_loop cutoff ((DateStem d, c) # paths) all_articles =
     (if d * usec_per_day < cutoff then load_loop cutoff paths all_articles
      else (case c of
              Unparseable \<Rightarrow> ((DateStem d, c) # paths, Inl JSONDecodeError)
            | Parsed articles \<Rightarrow>
                (case load_loop cutoff paths (all_articles(DateStem d \<mapsto> articles)) of
                   (files, r) \<Rightarrow> ((DateStem d, c) # files, r))))"

definition load_recent_articles :: "int \<Rightarrow> directory
    \<Rightarrow> directory \<times> (error + (stem \<rightharpoonup> article list))" where
  "load_recent_articles now files = load_loop (now - KEEP_DAYS * usec_per_day) files Map.empty"

section \<open>The run (\<open>main\<close>)\<close>

text \<open>
  What a run can change: the archive directory, the rendered document at \<open>OUTPUT_PATH\<close>
  (absent before the first run) and the number of requests sent to the classifier.
  \<open>generate_html\<close> is a template and enters as a parameter, as do the articles that the
  feeds return and the classifier's answers. The run ends with the state it leaves and
  the exception that ended it, if any.
\<close>

record world =
  archive :: directory
  output_file :: "string option"
  requests :: nat

definition main :: "string option \<Rightarrow> (nat \<Rightarrow> article list \<Rightarrow> response)
    \<Rightarrow> ((stem \<rightharpoonup> article list) \<Rightarrow> int \<Rightarrow> string) \<Rightarrow> int \<Rightarrow> article list \<Rightarrow> world
    \<Rightarrow> world \<times> error option" where
  "main api_key respond generate_html now fetched w =
     (let TODAY = now div usec_per_day;
          articles = collect_articles TODAY fetched
      in if articles = [] then (w, None)
         else
           (let classified = classify_articles api_key respond articles;
                w1 = w\<lparr>requests := requests w + classify_requests api_key articles\<rparr>;
                selected = select_top_articles classified 15;
                w2 = w1\<lparr>archive := save_articles selected TODAY (archive w1)\<rparr>
            in case load_recent_articles now (archive w2) of
                 (files, Inl e) \<Rightarrow> (w2\<lparr>archive := files\<rparr>, Some e)
               | (files, Inr all_articles) \<Rightarrow>
                   (w2\<lparr>archive := files, output_file := Some (generate_html all_articles now)\<rparr>, None)))"

section \<open>Vocabulary of the properties\<close>

text \<open>The test \<open>file_date < cutoff\<close> of line 241 as a predicate on stems.\<close>

fun expired :: "int \<Rightarrow> stem \<Rightarrow> bool" where
  "expired cutoff (DateStem d) = (d * usec_per_day < cutoff)"
| "expired cutoff (OtherStem n) = False"

text \<open>Whether \<open>strptime\<close> accepts the stem (line 237).\<close>

fun is_date :: "stem \<Rightarrow> bool" where
  "is_date (DateStem d) = True"
| "is_date (OtherStem n) = False"

text \<open>The distinct elements of a list in the order of their first occurrence.\<close>

fun first_seen :: "'a list \<Rightarrow> 'a list" where
  "first_seen [] = []"
| "first_seen (x # xs) = x # first_seen (filter (\<lambda>y. y \<noteq> x) xs)"

text \<open>
  What holds of \<open>by_cat\<close> after the grouping, and the invariant of the round robin: of each
  category, the articles selected so far are the first \<open>idx_per_cat\<close> ones of its list.
\<close>

definition groups_ok :: "(string \<times> article list) list \<Rightarrow> bool" where
  "groups_ok by_cat \<longleftrightarrow>
     distinct (map fst by_cat) \<and> (\<forall>(c, g)\<in>set by_cat. \<forall>a\<in>set g. cat_of a = c)"

definition rr_inv :: "(string \<times> article list) list \<Rightarrow> article list \<Rightarrow> (string \<Rightarrow> nat) \<Rightarrow> bool" where
  "rr_inv by_cat selected idx \<longleftrightarrow>
     (\<forall>(c, g)\<in>set by_cat.
        idx c \<le> length g \<and> filter (\<lambda>a. cat_of a = c) selected = take (idx c) g) \<and>
     (\<forall>a\<in>set selected. cat_of a \<in> fst ` set by_cat)"

section \<open>Fixtures for the concrete instances\<close>

definition example_article :: "string \<Rightarrow> int \<Rightarrow> article" where
  "example_article u d =
     \<lparr>title = ''t'', url = u, source = ''s'', lang = ''en'', date = d, category = None\<rparr>"

definition example_world :: world where
  "example_world =
     \<lparr>archive = [(DateStem 99, Parsed [example_article ''u'' 99])],
      output_file = Some ''old'', requests = 0\<rparr>"

definition classified_article :: "string \<Rightarrow> string \<Rightarrow> article" where
  "classified_article u c = (example_article u 100)\<lparr>category := Some c\<rparr>"

definition example_feed :: "article list" where
  "example_feed =
     [classified_article ''a1'' ''A'', classified_article ''b1'' ''B'',
      classified_article ''a2'' ''A'', classified_article ''c1'' ''C'',
      classified_article ''a3'' ''A'', classified_article ''a4'' ''A'',
      classified_article ''a5'' ''A'', classified_article ''a6'' ''A'',
      classified_article ''b2'' ''B'', classified_article ''a7'' ''A'',
      classified_article ''a8'' ''A'', classified_article ''a9'' ''A'',
      classified_article ''a10'' ''A'']"

section \<open>Properties of the recency and deduplication filter\<close>

lemma dedup_urls_fresh: "a \<in> set (dedup_urls seen xs) \<Longrightarrow> url a \<notin> seen \<and> a \<in> set xs"
  by (induction xs arbitrary: seen) (auto split: if_splits)

lemma dedup_urls_fixed:
  "distinct (map url xs) \<Longrightarrow> url ` set xs \<inter> seen = {} \<Longrightarrow> dedup_urls seen xs = xs"
  by (induction xs arbitrary: seen) auto

lemma dedup_urls_distinct: "distinct (map url (dedup_urls seen xs))"
  by (induction xs arbitrary: seen) (auto dest: dedup_urls_fresh)

lemma dedup_urls_idem: "dedup_urls seen (dedup_urls seen xs) = dedup_urls seen xs"
  by (rule dedup_urls_fixed) (auto simp: dedup_urls_distinct dest: dedup_urls_fresh)

lemma dedup_urls_filter_length:
  "length (filter P (dedup_urls seen xs)) \<le> length (filter P xs)"
  by (induction xs arbitrary: seen) (auto intro: le_SucI)

lemma filter_dedup_urls_all:
  "\<forall>a\<in>set xs. P a \<Longrightarrow> filter P (dedup_urls seen xs) = dedup_urls seen xs"
  by (auto simp: filter_id_conv dest: dedup_urls_fresh)

text \<open>
  C1. The filter is idempotent: for every list of articles and every \<open>today\<close>, running
  \<open>collect_articles\<close> (window with escalation, then deduplication by URL) on its own
  output gives that output again, also when the first pass left fewer than five
  articles of the primary window and the second pass therefore widens the window.
\<close>

theorem collect_articles_idempotent:
  "collect_articles today (collect_articles today all_articles) = collect_articles today all_articles"
proof (cases "length (primary_window today all_articles) < 5")
  case True
  let ?W = "\<lambda>a. today - 3 \<le> date a"
  let ?P = "\<lambda>a. date a = today \<or> date a = today - 1"
  have out: "collect_articles today all_articles = dedup_urls {} (filter ?W all_articles)"
    using True by (simp add: collect_articles_def recent_articles_def)
  have "length (filter ?P (dedup_urls {} (filter ?W all_articles))) \<le> length (filter ?P (filter ?W all_articles))"
    by (rule dedup_urls_filter_length)
  also have "filter ?P (filter ?W all_articles) = filter ?P all_articles"
    by (auto intro: filter_cong)
  finally have small: "length (primary_window today (dedup_urls {} (filter ?W all_articles))) < 5"
    using True by (simp add: primary_window_def)
  have "filter ?W (dedup_urls {} (filter ?W all_articles)) = dedup_urls {} (filter ?W all_articles)"
    by (rule filter_dedup_urls_all) simp
  with small show ?thesis
    unfolding out by (simp add: collect_articles_def recent_articles_def dedup_urls_idem)
next
  case False
  let ?W = "\<lambda>a. today - 3 \<le> date a"
  let ?P = "\<lambda>a. date a = today \<or> date a = today - 1"
  let ?out = "dedup_urls {} (filter ?P all_articles)"
  have out: "collect_articles today all_articles = ?out"
    using False by (simp add: collect_articles_def recent_articles_def primary_window_def)
  have p: "filter ?P ?out = ?out"
    by (rule filter_dedup_urls_all) simp
  have w: "filter ?W ?out = ?out"
    by (rule filter_dedup_urls_all) auto
  show ?thesis
    unfolding out by (simp add: collect_articles_def recent_articles_def primary_window_def Let_def p w dedup_urls_idem)
qed

theorem collect_articles_idempotent_witness:
  "collect_articles 100
     [example_article ''u'' 100, example_article ''u'' 100, example_article ''u'' 99,
      example_article ''u'' 100, example_article ''u'' 99, example_article ''v'' 97]
     = [example_article ''u'' 100] \<and>
   length (primary_window 100 [example_article ''u'' 100]) < 5 \<and>
   collect_articles 100 [example_article ''u'' 100] = [example_article ''u'' 100]"
proof -
  have a: "collect_articles 100
     [example_article ''u'' 100, example_article ''u'' 100, example_article ''u'' 99,
      example_article ''u'' 100, example_article ''u'' 99, example_article ''v'' 97]
     = [example_article ''u'' 100]"
    by (simp add: collect_articles_def recent_articles_def primary_window_def example_article_def)
  have b: "length (primary_window 100 [example_article ''u'' 100]) < 5"
    by (simp add: primary_window_def)
  show ?thesis
    using a b collect_articles_idempotent [of 100
     "[example_article ''u'' 100, example_article ''u'' 100, example_article ''u'' 99,
      example_article ''u'' 100, example_article ''u'' 99, example_article ''v'' 97]"]
    by simp
qed

lemma dedup_urls_urls: "url ` set (dedup_urls seen xs) = url ` set xs - seen"
proof (induction xs arbitrary: seen)
  case Nil
  then show ?case by simp
next
  case (Cons a as)
  show ?case
  proof (cases "url a \<in> seen")
    case True
    then show ?thesis by (auto simp: Cons.IH)
  next
    case False
    then show ?thesis by (auto simp: Cons.IH)
  qed
qed

lemma collect_articles_window:
  "collect_articles today xs =
     dedup_urls {} (if 5 \<le> length (primary_window today xs) then primary_window today xs
                    else filter (\<lambda>a. today - 3 \<le> date a) xs)"
  by (simp add: collect_articles_def recent_articles_def Let_def)

text \<open>
  C2, with the deduplication. Window escalation of \<open>collect_articles\<close>: with at least five
  articles dated today or yesterday, the candidates are exactly these; with fewer, the
  candidates are all articles dated \<open>today - 3\<close> or later. Of the candidates the first
  article of each URL is kept, so the result has no URL twice, has every URL of the
  candidates, and is the list of candidates itself when their URLs are distinct. After
  escalation the URL of an article dated exactly three days ago is in the result, and an
  article dated four days ago is not.
\<close>

theorem window_escalation:
  "(5 \<le> length (primary_window today xs) \<longrightarrow>
      collect_articles today xs = dedup_urls {} (primary_window today xs) \<and>
      set (collect_articles today xs) \<subseteq> set (primary_window today xs) \<and>
      url ` set (collect_articles today xs) = url ` set (primary_window today xs) \<and>
      (distinct (map url (primary_window today xs)) \<longrightarrow>
         collect_articles today xs = primary_window today xs)) \<and>
   (length (primary_window today xs) < 5 \<longrightarrow>
      collect_articles today xs = dedup_urls {} (filter (\<lambda>a. today - 3 \<le> date a) xs) \<and>
      set (collect_articles today xs) \<subseteq> set (filter (\<lambda>a. today - 3 \<le> date a) xs) \<and>
      url ` set (collect_articles today xs) = url ` set (filter (\<lambda>a. today - 3 \<le> date a) xs) \<and>
      (distinct (map url (filter (\<lambda>a. today - 3 \<le> date a) xs)) \<longrightarrow>
         collect_articles today xs = filter (\<lambda>a. today - 3 \<le> date a) xs) \<and>
      (\<forall>a\<in>set xs. date a = today - 3 \<longrightarrow>
         (\<exists>b\<in>set (collect_articles today xs). url b = url a)) \<and>
      (\<forall>a\<in>set xs. date a = today - 4 \<longrightarrow> a \<notin> set (collect_articles today xs))) \<and>
   distinct (map url (collect_articles today xs))"
proof (intro conjI impI)
  assume five: "5 \<le> length (primary_window today xs)"
  then show eq: "collect_articles today xs = dedup_urls {} (primary_window today xs)"
    by (simp add: collect_articles_window)
  show "set (collect_articles today xs) \<subseteq> set (primary_window today xs)"
    unfolding eq by (auto dest: dedup_urls_fresh)
  show "url ` set (collect_articles today xs) = url ` set (primary_window today xs)"
    unfolding eq by (simp add: dedup_urls_urls)
  show "collect_articles today xs = primary_window today xs"
    if "distinct (map url (primary_window today xs))"
    unfolding eq using that by (intro dedup_urls_fixed) auto
next
  let ?W = "filter (\<lambda>a. today - 3 \<le> date a) xs"
  assume few: "length (primary_window today xs) < 5"
  then show eq: "collect_articles today xs = dedup_urls {} ?W"
    by (simp add: collect_articles_window)
  show sub: "set (collect_articles today xs) \<subseteq> set ?W"
    unfolding eq by (auto dest: dedup_urls_fresh)
  show urls: "url ` set (collect_articles today xs) = url ` set ?W"
    unfolding eq by (simp add: dedup_urls_urls)
  show "collect_articles today xs = ?W" if "distinct (map url ?W)"
    unfolding eq using that by (intro dedup_urls_fixed) auto
  show "\<forall>a\<in>set xs. date a = today - 3 \<longrightarrow> (\<exists>b\<in>set (collect_articles today xs). url b = url a)"
  proof (intro ballI impI)
    fix a assume "a \<in> set xs" "date a = today - 3"
    then have "a \<in> set ?W" by simp
    then have "url a \<in> url ` set ?W" by (rule imageI)
    then have "url a \<in> url ` set (collect_articles today xs)" by (simp only: urls)
    then obtain b where b: "b \<in> set (collect_articles today xs)" "url a = url b"
      by (auto simp: image_iff)
    show "\<exists>b\<in>set (collect_articles today xs). url b = url a"
      by (rule bexI [of _ b]) (simp_all add: b)
  qed
  show "\<forall>a\<in>set xs. date a = today - 4 \<longrightarrow> a \<notin> set (collect_articles today xs)"
    using sub by auto
next
  show "distinct (map url (collect_articles today xs))"
    by (simp add: collect_articles_def dedup_urls_distinct)
qed

text \<open>
  C2 without the deduplication fails where URLs repeat: five articles of the primary
  window with one URL are not all kept, and after escalation an article dated three days
  ago is dropped when an earlier candidate has its URL.
\<close>

theorem window_escalation_counterexample:
  "5 \<le> length (primary_window 100
      [example_article ''u'' 100, example_article ''u'' 100, example_article ''u'' 100,
       example_article ''u'' 99, example_article ''u'' 99]) \<and>
   collect_articles 100
      [example_article ''u'' 100, example_article ''u'' 100, example_article ''u'' 100,
       example_article ''u'' 99, example_article ''u'' 99]
     \<noteq> primary_window 100
      [example_article ''u'' 100, example_article ''u'' 100, example_article ''u'' 100,
       example_article ''u'' 99, example_article ''u'' 99] \<and>
   length (primary_window 100 [example_article ''u'' 100, example_article ''u'' 97]) < 5 \<and>
   date (example_article ''u'' 97) = 100 - 3 \<and>
   example_article ''u'' 97 \<notin> set (collect_articles 100
      [example_article ''u'' 100, example_article ''u'' 97])"
  by (simp add: collect_articles_def recent_articles_def primary_window_def example_article_def)

theorem window_escalation_witness:
  "collect_articles 100
     [example_article ''a'' 100, example_article ''b'' 100, example_article ''c'' 100,
      example_article ''d'' 99, example_article ''e'' 99, example_article ''f'' 97]
     = [example_article ''a'' 100, example_article ''b'' 100, example_article ''c'' 100,
        example_article ''d'' 99, example_article ''e'' 99] \<and>
   collect_articles 100
     [example_article ''a'' 100, example_article ''b'' 99, example_article ''c'' 97,
      example_article ''d'' 96]
     = [example_article ''a'' 100, example_article ''b'' 99, example_article ''c'' 97] \<and>
   example_article ''d'' 96 \<notin> set (collect_articles 100
     [example_article ''a'' 100, example_article ''b'' 99, example_article ''c'' 97,
      example_article ''d'' 96])"
proof -
  let ?A = "[example_article ''a'' 100, example_article ''b'' 100, example_article ''c'' 100,
      example_article ''d'' 99, example_article ''e'' 99, example_article ''f'' 97]"
  let ?B = "[example_article ''a'' 100, example_article ''b'' 99, example_article ''c'' 97,
      example_article ''d'' 96]"
  have pa: "primary_window 100 ?A =
      [example_article ''a'' 100, example_article ''b'' 100, example_article ''c'' 100,
        example_article ''d'' 99, example_article ''e'' 99]"
    by (simp add: primary_window_def example_article_def)
  have a: "5 \<le> length (primary_window 100 ?A)" unfolding pa by simp
  have da: "distinct (map url (primary_window 100 ?A))"
    unfolding pa by (simp add: example_article_def)
  have b: "length (primary_window 100 ?B) < 5" by (simp add: primary_window_def)
  have wb: "filter (\<lambda>a. 100 - 3 \<le> date a) ?B =
      [example_article ''a'' 100, example_article ''b'' 99, example_article ''c'' 97]"
    by (simp add: example_article_def)
  have db: "distinct (map url (filter (\<lambda>a. 100 - 3 \<le> date a) ?B))"
    unfolding wb by (simp add: example_article_def)
  have d: "example_article ''d'' 96 \<in> set ?B" "date (example_article ''d'' 96) = 100 - 4"
    by (simp_all add: example_article_def)
  have A: "collect_articles 100 ?A = primary_window 100 ?A"
    using a da window_escalation [where today = 100 and xs = ?A] by blast
  have B: "collect_articles 100 ?B = filter (\<lambda>a. 100 - 3 \<le> date a) ?B"
    using b db window_escalation [where today = 100 and xs = ?B] by blast
  have D: "example_article ''d'' 96 \<notin> set (collect_articles 100 ?B)"
    using b d window_escalation [where today = 100 and xs = ?B] by blast
  from A B D show ?thesis unfolding pa wb by blast
qed

section \<open>Properties of the classification\<close>

lemma assign_batch_nth:
  "j < length batch \<Longrightarrow>
     assign_batch r batch ! j =
       (case r of Cats cats \<Rightarrow> assign_label cats j (batch ! j)
        | _ \<Rightarrow> (batch ! j)\<lparr>category := Some FALLBACK\<rparr>)"
  by (cases r) (simp_all add: nth_enumerate_eq)

lemma length_classify_from [simp]: "length (classify_from respond i xs) = length xs"
proof (induction respond i xs rule: classify_from.induct)
  case (1 respond i articles)
  show ?case
  proof (cases "i < length articles")
    case True
    with 1 [OF True refl] show ?thesis
      by (subst classify_from.simps) (simp add: Let_def batch_size_def)
  next
    case False
    then show ?thesis by (subst classify_from.simps) simp
  qed
qed

lemma classify_from_nth:
  "k < length xs \<Longrightarrow>
     classify_from respond i xs ! k =
       (if k < i then xs ! k
        else (let b = i + ((k - i) div batch_size) * batch_size;
                  batch = take batch_size (drop b xs)
              in assign_batch (respond b batch) batch ! (k - b)))"
proof (induction respond i xs rule: classify_from.induct)
  case (1 respond i articles)
  show ?case
  proof (cases "i < length articles")
    case False
    with 1(2) show ?thesis by (subst classify_from.simps) simp
  next
    case True
    define batch where "batch = take batch_size (drop i articles)"
    define AB where "AB = assign_batch (respond i batch) batch"
    define xs' where "xs' = take i articles @ AB @ drop (i + batch_size) articles"
    have lenAB: "length AB = min batch_size (length articles - i)"
      by (simp add: AB_def batch_def)
    have len': "length xs' = length articles"
      using True by (simp add: xs'_def lenAB batch_size_def)
    have unfold: "classify_from respond i articles = classify_from respond (i + batch_size) xs'"
      using True by (subst classify_from.simps) (simp add: Let_def xs'_def AB_def batch_def)
    have IH: "classify_from respond (i + batch_size) xs' ! k =
       (if k < i + batch_size then xs' ! k
        else (let b = i + batch_size + ((k - (i + batch_size)) div batch_size) * batch_size;
                  batch = take batch_size (drop b xs')
              in assign_batch (respond b batch) batch ! (k - b)))"
      using 1(1) [OF True batch_def, folded AB_def, folded xs'_def] 1(2) len'
      by simp
    consider "k < i" | "i \<le> k" "k < i + batch_size" | "i + batch_size \<le> k" by linarith
    then show ?thesis
    proof cases
      case 1
      then have "xs' ! k = articles ! k"
        using True by (simp add: xs'_def nth_append)
      with 1 IH unfold show ?thesis by simp
    next
      case 2
      have "k - i < length AB"
        using 2 \<open>k < length articles\<close> unfolding lenAB by arith
      then have "xs' ! k = AB ! (k - i)"
        using True 2 by (simp add: xs'_def nth_append)
      moreover have "(k - i) div batch_size = 0" using 2 by simp
      ultimately show ?thesis
        using 2 IH unfold by (simp add: Let_def AB_def batch_def)
    next
      case 3
      define b where "b = i + batch_size + ((k - (i + batch_size)) div batch_size) * batch_size"
      have b_eq: "b = i + ((k - i) div batch_size) * batch_size"
      proof -
        have "k - i = (k - (i + batch_size)) + batch_size" using 3 by arith
        then have "(k - i) div batch_size = ((k - (i + batch_size)) + batch_size) div batch_size"
          by (rule arg_cong)
        also have "\<dots> = (k - (i + batch_size)) div batch_size + 1"
          by (simp add: batch_size_def)
        finally show ?thesis by (simp add: b_def)
      qed
      have "i + batch_size \<le> b" by (simp add: b_def)
      then have "drop b xs' = drop b articles"
        using True by (simp add: xs'_def lenAB min_def)
      with 3 IH unfold show ?thesis
        by (simp add: Let_def b_def [symmetric] b_eq [symmetric])
    qed
  qed
qed

lemma classify_articles_length [simp]:
  "length (classify_articles api_key respond articles) = length articles"
  by (simp add: classify_articles_def)

lemma classify_articles_nth:
  assumes "k < length articles"
  shows "classify_articles api_key respond articles ! k =
     (if api_key = None \<or> api_key = Some [] then (articles ! k)\<lparr>category := Some FALLBACK\<rparr>
      else (case respond ((k div batch_size) * batch_size)
                   (take batch_size (drop ((k div batch_size) * batch_size) articles)) of
              Cats cats \<Rightarrow> assign_label cats (k mod batch_size) (articles ! k)
            | _ \<Rightarrow> (articles ! k)\<lparr>category := Some FALLBACK\<rparr>))"
proof (cases "api_key = None \<or> api_key = Some []")
  case True
  with assms show ?thesis by (simp add: classify_articles_def)
next
  case False
  define b where "b = (k div batch_size) * batch_size"
  define batch where "batch = take batch_size (drop b articles)"
  have kb: "k - b = k mod batch_size" "b \<le> k" "b + k mod batch_size = k"
    by (simp_all add: b_def minus_div_mult_eq_mod [symmetric])
  have j: "k mod batch_size < length batch"
    using assms kb by (simp add: batch_def batch_size_def) 
  have bj: "batch ! (k mod batch_size) = articles ! k"
    using assms kb j by (simp add: batch_def)
  have "classify_articles api_key respond articles ! k
      = assign_batch (respond b batch) batch ! (k mod batch_size)"
  proof -
    have "classify_articles api_key respond articles = classify_from respond 0 articles"
      using False by (auto simp: classify_articles_def)
    moreover have "classify_from respond 0 articles ! k = assign_batch (respond b batch) batch ! (k - b)"
      using classify_from_nth [OF assms, of respond 0] by (simp add: Let_def b_def batch_def)
    ultimately show ?thesis by (simp only: kb(1))
  qed
  also have "\<dots> = (case respond b batch of Cats cats \<Rightarrow> assign_label cats (k mod batch_size) (articles ! k)
            | _ \<Rightarrow> (articles ! k)\<lparr>category := Some FALLBACK\<rparr>)"
    using j by (simp add: assign_batch_nth bj split: response.splits)
  finally show ?thesis using False by (auto simp: b_def batch_def)
qed

lemma FALLBACK_in_CATEGORIES: "FALLBACK \<in> set CATEGORIES"
  by (simp add: FALLBACK_def CATEGORIES_def)

lemma assign_label_category:
  "\<exists>c. category (assign_label cats idx a) = Some c \<and> c \<in> set CATEGORIES"
  by (cases "cats ! idx") (auto simp: assign_label_def FALLBACK_in_CATEGORIES)

text \<open>
  C9. Category membership: on every path of \<open>classify_articles\<close> (no API key, labels
  returned, labels invalid or missing, no array found, an exception), every article of
  the result has a category, and it is one of the ten entries of \<open>CATEGORIES\<close>.
\<close>

theorem category_membership:
  "\<forall>a\<in>set (classify_articles api_key respond articles).
     \<exists>c. category a = Some c \<and> c \<in> set CATEGORIES"
proof
  fix a assume "a \<in> set (classify_articles api_key respond articles)"
  then obtain k where k: "k < length articles" and a: "a = classify_articles api_key respond articles ! k"
    by (auto simp: in_set_conv_nth)
  show "\<exists>c. category a = Some c \<and> c \<in> set CATEGORIES"
    unfolding a classify_articles_nth [OF k]
    by (auto simp: FALLBACK_in_CATEGORIES assign_label_category split: response.splits)
qed

theorem category_membership_witness:
  "\<exists>c. category (classify_articles (Some ''key'') (\<lambda>i batch. Cats [JString ''bogus'', JOther])
          [example_article ''a'' 100, example_article ''b'' 100, example_article ''c'' 100] ! 0)
        = Some c \<and> c \<in> set CATEGORIES"
proof -
  have "classify_articles (Some ''key'') (\<lambda>i batch. Cats [JString ''bogus'', JOther])
          [example_article ''a'' 100, example_article ''b'' 100, example_article ''c'' 100] ! 0
        \<in> set (classify_articles (Some ''key'') (\<lambda>i batch. Cats [JString ''bogus'', JOther])
          [example_article ''a'' 100, example_article ''b'' 100, example_article ''c'' 100])"
    by (rule nth_mem) simp
  then show ?thesis
    using category_membership [of "Some ''key''" "\<lambda>i batch. Cats [JString ''bogus'', JOther]"
          "[example_article ''a'' 100, example_article ''b'' 100, example_article ''c'' 100]"]
    by blast
qed

section \<open>Properties of the run\<close>

text \<open>
  C8. A run whose collection and filtering yield no article ends without an error and
  without any further effect: no request to the classifier, no archive file written or
  deleted, and the rendered document left as it was.
\<close>

theorem zero_articles_exit:
  "collect_articles (now div usec_per_day) fetched = [] \<Longrightarrow>
     main api_key respond generate_html now fetched w = (w, None)"
  by (simp add: main_def)

theorem zero_articles_exit_witness:
  "main (Some ''key'') (\<lambda>i batch. Raised) (\<lambda>m t. ''new'') (100 * usec_per_day)
     [example_article ''u'' 90] example_world = (example_world, None)"
proof -
  have "collect_articles ((100 * usec_per_day) div usec_per_day) [example_article ''u'' 90] = []"
    by (simp add: usec_per_day_def collect_articles_def recent_articles_def primary_window_def
        example_article_def)
  then show ?thesis by (rule zero_articles_exit)
qed

text \<open>
  C7. Fallback isolation and validation per element. With an API key, the article at
  position \<open>k\<close> belongs to the batch that starts at \<open>(k div 20) * 20\<close>. If the
  response to that batch is an exception or has no array, the article gets the fallback
  category; if it is a list, the article gets the label at its index when there is one
  and it is in \<open>CATEGORIES\<close>, and the fallback otherwise. The responses to the other
  batches have no influence on it.
\<close>

theorem classification_fallback_isolation:
  assumes key: "api_key \<noteq> None" "api_key \<noteq> Some []" and k: "k < length articles"
  shows "length (classify_articles api_key respond articles) = length articles \<and>
    (let b = (k div batch_size) * batch_size;
         batch = take batch_size (drop b articles);
         idx = k mod batch_size
     in classify_articles api_key respond articles ! k =
          (case respond b batch of
             Raised \<Rightarrow> (articles ! k)\<lparr>category := Some FALLBACK\<rparr>
           | NoMatch \<Rightarrow> (articles ! k)\<lparr>category := Some FALLBACK\<rparr>
           | Cats cats \<Rightarrow>
               (if idx < length cats \<and> in_CATEGORIES (cats ! idx)
                then (articles ! k)\<lparr>category := Some (label_of (cats ! idx))\<rparr>
                else (articles ! k)\<lparr>category := Some FALLBACK\<rparr>)) \<and>
        (\<forall>respond'. respond' b batch = respond b batch \<longrightarrow>
           classify_articles api_key respond' articles ! k =
           classify_articles api_key respond articles ! k))"
proof -
  define b where "b = (k div batch_size) * batch_size"
  define batch where "batch = take batch_size (drop b articles)"
  have nth: "classify_articles api_key r articles ! k =
      (case r b batch of Cats cats \<Rightarrow> assign_label cats (k mod batch_size) (articles ! k)
       | _ \<Rightarrow> (articles ! k)\<lparr>category := Some FALLBACK\<rparr>)" for r
    using key classify_articles_nth [OF k, of api_key r] by (auto simp: b_def batch_def)
  have one: "classify_articles api_key respond articles ! k =
          (case respond b batch of
             Raised \<Rightarrow> (articles ! k)\<lparr>category := Some FALLBACK\<rparr>
           | NoMatch \<Rightarrow> (articles ! k)\<lparr>category := Some FALLBACK\<rparr>
           | Cats cats \<Rightarrow>
               (if k mod batch_size < length cats \<and> in_CATEGORIES (cats ! (k mod batch_size))
                then (articles ! k)\<lparr>category := Some (label_of (cats ! (k mod batch_size)))\<rparr>
                else (articles ! k)\<lparr>category := Some FALLBACK\<rparr>))"
    unfolding nth by (simp add: assign_label_def split: response.splits)
  have two: "classify_articles api_key respond' articles ! k =
           classify_articles api_key respond articles ! k"
    if "respond' b batch = respond b batch" for respond'
    unfolding nth using that by simp
  have len: "length (classify_articles api_key respond articles) = length articles"
    by simp
  show ?thesis
    unfolding Let_def b_def [symmetric] batch_def [symmetric]
    using len one two by blast
qed

theorem classification_fallback_isolation_witness:
  "category (classify_articles (Some ''key'')
      (\<lambda>i batch. if i = 0 then NoMatch else Cats [JString (CATEGORIES ! 0)])
      (replicate 20 (example_article ''u'' 100) @ [example_article ''v'' 100]) ! 3) = Some FALLBACK \<and>
   category (classify_articles (Some ''key'')
      (\<lambda>i batch. if i = 0 then NoMatch else Cats [JString (CATEGORIES ! 0)])
      (replicate 20 (example_article ''u'' 100) @ [example_article ''v'' 100]) ! 20) = Some (CATEGORIES ! 0)"
proof -
  have k: "Some ''key'' \<noteq> (None :: string option)" "Some ''key'' \<noteq> Some []"
    "3 < length (replicate 20 (example_article ''u'' 100) @ [example_article ''v'' 100])"
    "20 < length (replicate 20 (example_article ''u'' 100) @ [example_article ''v'' 100])"
    by simp_all
  have c: "in_CATEGORIES (JString (CATEGORIES ! 0))"
    by (simp add: CATEGORIES_def)
  show ?thesis
    using classification_fallback_isolation [OF k(1) k(2) k(3),
        of "\<lambda>i batch. if i = 0 then NoMatch else Cats [JString (CATEGORIES ! 0)]"]
      classification_fallback_isolation [OF k(1) k(2) k(4),
        of "\<lambda>i batch. if i = 0 then NoMatch else Cats [JString (CATEGORIES ! 0)]"] c
    by (simp add: Let_def batch_size_def)
qed

section \<open>Properties of the archive\<close>

lemma snd_load_loop [simp]:
  "snd (load_loop cutoff ((OtherStem n, c) # paths) acc) = snd (load_loop cutoff paths acc)"
  "snd (load_loop cutoff ((DateStem d, c) # paths) acc) =
     (if d * usec_per_day < cutoff then snd (load_loop cutoff paths acc)
      else (case c of Unparseable \<Rightarrow> Inl JSONDecodeError
            | Parsed arts \<Rightarrow> snd (load_loop cutoff paths (acc(DateStem d \<mapsto> arts)))))"
  by (simp_all split: prod.splits file_content.splits)

lemma fst_load_loop [simp]:
  "fst (load_loop cutoff ((OtherStem n, c) # paths) acc) =
     (OtherStem n, c) # fst (load_loop cutoff paths acc)"
  "fst (load_loop cutoff ((DateStem d, c) # paths) acc) =
     (if d * usec_per_day < cutoff then fst (load_loop cutoff paths acc)
      else (case c of Unparseable \<Rightarrow> (DateStem d, c) # paths
            | Parsed arts \<Rightarrow>
                (DateStem d, c) # fst (load_loop cutoff paths (acc(DateStem d \<mapsto> arts)))))"
  by (simp_all split: prod.splits file_content.splits)

declare load_loop.simps(2,3) [simp del]

lemma load_loop_raises:
  "(DateStem d, Unparseable) \<in> set paths \<Longrightarrow> \<not> d * usec_per_day < cutoff \<Longrightarrow>
     snd (load_loop cutoff paths acc) = Inl JSONDecodeError"
proof (induction paths arbitrary: acc)
  case Nil
  then show ?case by simp
next
  case (Cons p paths)
  obtain s c where p: "p = (s, c)" by (cases p)
  show ?case
  proof (cases s)
    case (OtherStem n)
    with Cons p show ?thesis by auto
  next
    case (DateStem d')
    with Cons p show ?thesis by (cases c) auto
  qed
qed

lemma load_loop_stray:
  "(OtherStem n, c) \<in> set paths \<Longrightarrow>
     (OtherStem n, c) \<in> set (fst (load_loop cutoff paths acc))"
proof (induction paths arbitrary: acc)
  case Nil
  then show ?case by simp
next
  case (Cons p paths)
  obtain s' c' where p: "p = (s', c')" by (cases p)
  show ?case
  proof (cases s')
    case (OtherStem n')
    with Cons p show ?thesis by auto
  next
    case (DateStem d')
    with Cons p show ?thesis by (cases c') auto
  qed
qed

lemma load_loop_keys:
  "snd (load_loop cutoff paths acc) = Inr m \<Longrightarrow>
     m (OtherStem n) = acc (OtherStem n) \<and>
     (\<forall>s. s \<notin> fst ` set paths \<longrightarrow> m s = acc s) \<and>
     (\<forall>d. d * usec_per_day < cutoff \<longrightarrow> m (DateStem d) = acc (DateStem d))"
proof (induction paths arbitrary: acc)
  case Nil
  then show ?case by simp
next
  case (Cons p paths)
  obtain s' c' where p: "p = (s', c')" by (cases p)
  show ?case
  proof (cases s')
    case (OtherStem n')
    with Cons p show ?thesis by auto
  next
    case (DateStem d')
    show ?thesis
    proof (cases "d' * usec_per_day < cutoff")
      case True
      with Cons p DateStem show ?thesis by auto
    next
      case False
      show ?thesis
      proof (cases c')
        case Unparseable
        with False Cons.prems p DateStem show ?thesis by simp
      next
        case (Parsed arts)
        with False Cons.prems p DateStem
        have "snd (load_loop cutoff paths (acc(DateStem d' \<mapsto> arts))) = Inr m" by simp
        from Cons.IH [OF this] False p DateStem show ?thesis by auto
      qed
    qed
  qed
qed

lemma load_loop_returns:
  "\<forall>d. (DateStem d, Unparseable) \<in> set paths \<longrightarrow> d * usec_per_day < cutoff \<Longrightarrow>
     fst (load_loop cutoff paths acc) = filter (\<lambda>(s, c). \<not> expired cutoff s) paths \<and>
     (\<exists>m. snd (load_loop cutoff paths acc) = Inr m)"
proof (induction paths arbitrary: acc)
  case Nil
  then show ?case by simp
next
  case (Cons p paths)
  obtain s' c' where p: "p = (s', c')" by (cases p)
  from Cons.prems have tl: "\<forall>d. (DateStem d, Unparseable) \<in> set paths \<longrightarrow> d * usec_per_day < cutoff"
    by auto
  show ?case
  proof (cases s')
    case (OtherStem n')
    with Cons.IH [OF tl] p show ?thesis by simp
  next
    case (DateStem d')
    show ?thesis
    proof (cases c')
      case Unparseable
      with Cons.prems p DateStem have "d' * usec_per_day < cutoff" by simp
      with Cons.IH [OF tl] p DateStem show ?thesis by simp
    next
      case (Parsed arts)
      with Cons.IH [OF tl] p DateStem show ?thesis by simp
    qed
  qed
qed

lemma load_loop_included:
  "snd (load_loop cutoff paths acc) = Inr m \<Longrightarrow> distinct (map fst paths) \<Longrightarrow>
     (DateStem d, Parsed arts) \<in> set paths \<Longrightarrow> \<not> d * usec_per_day < cutoff \<Longrightarrow>
     m (DateStem d) = Some arts"
proof (induction paths arbitrary: acc)
  case Nil
  then show ?case by simp
next
  case (Cons p paths)
  obtain s' c' where p: "p = (s', c')" by (cases p)
  from Cons.prems(2) have dist: "distinct (map fst paths)" by simp
  show ?case
  proof (cases "(DateStem d, Parsed arts) \<in> set paths")
    case True
    show ?thesis
    proof (cases s')
      case (OtherStem n')
      with Cons.prems(1) p have "snd (load_loop cutoff paths acc) = Inr m" by simp
      from Cons.IH [OF this dist True Cons.prems(4)] show ?thesis .
    next
      case (DateStem d')
      show ?thesis
      proof (cases "d' * usec_per_day < cutoff")
        case lt: True
        with Cons.prems(1) p DateStem have "snd (load_loop cutoff paths acc) = Inr m" by simp
        from Cons.IH [OF this dist True Cons.prems(4)] show ?thesis .
      next
        case ge: False
        show ?thesis
        proof (cases c')
          case Unparseable
          with ge Cons.prems(1) p DateStem show ?thesis by simp
        next
          case (Parsed arts')
          with ge Cons.prems(1) p DateStem
          have "snd (load_loop cutoff paths (acc(DateStem d' \<mapsto> arts'))) = Inr m" by simp
          from Cons.IH [OF this dist True Cons.prems(4)] show ?thesis .
        qed
      qed
    qed
  next
    case False
    with Cons.prems(3) p have eq: "s' = DateStem d" "c' = Parsed arts" by auto
    with Cons.prems(1,4) p
    have r: "snd (load_loop cutoff paths (acc(DateStem d \<mapsto> arts))) = Inr m" by simp
    from Cons.prems(2) p eq have "DateStem d \<notin> fst ` set paths" by simp
    with load_loop_keys [OF r] show ?thesis by simp
  qed
qed

lemma write_file_keeps:
  "(k, v) \<in> set files \<Longrightarrow> k \<noteq> s \<Longrightarrow> (k, v) \<in> set (write_file s c files)"
  by (induction s c files rule: write_file.induct) auto

lemma today_window:
  fixes now :: int
  shows "(now div usec_per_day - 8) * usec_per_day < now - KEEP_DAYS * usec_per_day"
    and "\<not> (now div usec_per_day - 6) * usec_per_day < now - KEEP_DAYS * usec_per_day"
    and "\<not> (now div usec_per_day) * usec_per_day < now - KEEP_DAYS * usec_per_day"
proof -
  define t where "t = now div usec_per_day"
  have pos: "0 < usec_per_day" by (simp add: usec_per_day_def)
  have eq: "t * usec_per_day + now mod usec_per_day = now"
    unfolding t_def by (rule div_mult_mod_eq)
  have m0: "0 \<le> now mod usec_per_day" and m1: "now mod usec_per_day < usec_per_day"
    using pos by simp_all
  have lo: "t * usec_per_day \<le> now" using eq m0 by linarith
  have hi: "now < t * usec_per_day + usec_per_day" using eq m1 by linarith
  show "(now div usec_per_day - 8) * usec_per_day < now - KEEP_DAYS * usec_per_day"
    using lo pos unfolding t_def [symmetric] KEEP_DAYS_def by (simp add: algebra_simps)
  show "\<not> (now div usec_per_day - 6) * usec_per_day < now - KEEP_DAYS * usec_per_day"
    using hi pos unfolding t_def [symmetric] KEEP_DAYS_def by (simp add: algebra_simps)
  show "\<not> (now div usec_per_day) * usec_per_day < now - KEEP_DAYS * usec_per_day"
    using hi pos unfolding t_def [symmetric] KEEP_DAYS_def by (simp add: algebra_simps)
qed

text \<open>
  C5. Retention pruning. When no file within the horizon is unparseable,
  \<open>load_recent_articles\<close> returns; the files left in the directory are those that are
  not expired, a date file older than \<open>now\<close> minus seven days is deleted and has no entry
  in the dictionary, and a date file within the horizon is entered with its content.
  With files dated today - 8, today - 6 and today, the dictionary holds exactly the
  entries of today - 6 and today, and the file of today - 8 is deleted.
\<close>

theorem retention_pruning:
  "(distinct (map fst files) \<longrightarrow>
    (\<forall>d. (DateStem d, Unparseable) \<in> set files \<longrightarrow> d * usec_per_day < now - KEEP_DAYS * usec_per_day) \<longrightarrow>
    (\<exists>m. load_recent_articles now files =
            (filter (\<lambda>(s, c). \<not> expired (now - KEEP_DAYS * usec_per_day) s) files, Inr m) \<and>
         (\<forall>d c. (DateStem d, c) \<in> set files \<longrightarrow> d * usec_per_day < now - KEEP_DAYS * usec_per_day \<longrightarrow>
                m (DateStem d) = None) \<and>
         (\<forall>d arts. (DateStem d, Parsed arts) \<in> set files \<longrightarrow>
                \<not> d * usec_per_day < now - KEEP_DAYS * usec_per_day \<longrightarrow> m (DateStem d) = Some arts))) \<and>
   load_recent_articles now
      [(DateStem (now div usec_per_day - 8), c8),
       (DateStem (now div usec_per_day - 6), Parsed a6),
       (DateStem (now div usec_per_day), Parsed a0)]
     = ([(DateStem (now div usec_per_day - 6), Parsed a6),
         (DateStem (now div usec_per_day), Parsed a0)],
        Inr [DateStem (now div usec_per_day - 6) \<mapsto> a6, DateStem (now div usec_per_day) \<mapsto> a0])"
proof (intro conjI impI)
  assume dist: "distinct (map fst files)"
    and ok: "\<forall>d. (DateStem d, Unparseable) \<in> set files \<longrightarrow> d * usec_per_day < now - KEEP_DAYS * usec_per_day"
  define cutoff where "cutoff = now - KEEP_DAYS * usec_per_day"
  from load_loop_returns [of files cutoff Map.empty] ok
  obtain m where f: "fst (load_loop cutoff files Map.empty) = filter (\<lambda>(s, c). \<not> expired cutoff s) files"
    and m: "snd (load_loop cutoff files Map.empty) = Inr m"
    unfolding cutoff_def by blast
  have "load_recent_articles now files = (filter (\<lambda>(s, c). \<not> expired cutoff s) files, Inr m)"
    unfolding load_recent_articles_def cutoff_def [symmetric] using f m
    by (simp add: prod_eq_iff)
  moreover have "m (DateStem d) = None" if "d * usec_per_day < cutoff" for d
    using load_loop_keys [OF m] that by simp
  moreover have "m (DateStem d) = Some arts"
    if "(DateStem d, Parsed arts) \<in> set files" "\<not> d * usec_per_day < cutoff" for d arts
    using load_loop_included [OF m dist that] .
  ultimately show "\<exists>m. load_recent_articles now files =
            (filter (\<lambda>(s, c). \<not> expired (now - KEEP_DAYS * usec_per_day) s) files, Inr m) \<and>
         (\<forall>d c. (DateStem d, c) \<in> set files \<longrightarrow> d * usec_per_day < now - KEEP_DAYS * usec_per_day \<longrightarrow>
                m (DateStem d) = None) \<and>
         (\<forall>d arts. (DateStem d, Parsed arts) \<in> set files \<longrightarrow>
                \<not> d * usec_per_day < now - KEEP_DAYS * usec_per_day \<longrightarrow> m (DateStem d) = Some arts)"
    unfolding cutoff_def by blast
next
  show "load_recent_articles now
      [(DateStem (now div usec_per_day - 8), c8),
       (DateStem (now div usec_per_day - 6), Parsed a6),
       (DateStem (now div usec_per_day), Parsed a0)]
     = ([(DateStem (now div usec_per_day - 6), Parsed a6),
         (DateStem (now div usec_per_day), Parsed a0)],
        Inr [DateStem (now div usec_per_day - 6) \<mapsto> a6, DateStem (now div usec_per_day) \<mapsto> a0])"
    unfolding load_recent_articles_def
    by (simp add: load_loop.simps today_window)
qed

theorem retention_pruning_witness:
  "\<exists>m. load_recent_articles (100 * usec_per_day + 5)
      [(DateStem 92, Unparseable), (OtherStem ''notes'', Unparseable),
       (DateStem 94, Parsed [example_article ''a'' 94]),
       (DateStem 100, Parsed [example_article ''b'' 100])]
     = ([(OtherStem ''notes'', Unparseable),
         (DateStem 94, Parsed [example_article ''a'' 94]),
         (DateStem 100, Parsed [example_article ''b'' 100])], Inr m) \<and>
     m (DateStem 92) = None \<and>
     m (DateStem 94) = Some [example_article ''a'' 94] \<and>
     m (DateStem 100) = Some [example_article ''b'' 100]"
proof -
  let ?files = "[(DateStem 92, Unparseable), (OtherStem ''notes'', Unparseable),
       (DateStem 94, Parsed [example_article ''a'' 94]),
       (DateStem 100, Parsed [example_article ''b'' 100])]"
  let ?now = "100 * usec_per_day + 5"
  have h1: "distinct (map fst ?files)" by simp
  have h2: "\<forall>d. (DateStem d, Unparseable) \<in> set ?files \<longrightarrow>
      d * usec_per_day < ?now - KEEP_DAYS * usec_per_day"
    by (simp add: usec_per_day_def KEEP_DAYS_def)
  from retention_pruning [of ?files ?now, THEN conjunct1, THEN mp, OF h1, THEN mp, OF h2]
  obtain m where load: "load_recent_articles ?now ?files =
            (filter (\<lambda>(s, c). \<not> expired (?now - KEEP_DAYS * usec_per_day) s) ?files, Inr m)"
    and old: "\<forall>d c. (DateStem d, c) \<in> set ?files \<longrightarrow> d * usec_per_day < ?now - KEEP_DAYS * usec_per_day \<longrightarrow>
                m (DateStem d) = None"
    and new: "\<forall>d arts. (DateStem d, Parsed arts) \<in> set ?files \<longrightarrow>
                \<not> d * usec_per_day < ?now - KEEP_DAYS * usec_per_day \<longrightarrow> m (DateStem d) = Some arts"
    by blast
  have a: "filter (\<lambda>(s, c). \<not> expired (?now - KEEP_DAYS * usec_per_day) s) ?files
      = [(OtherStem ''notes'', Unparseable),
         (DateStem 94, Parsed [example_article ''a'' 94]),
         (DateStem 100, Parsed [example_article ''b'' 100])]"
    by (simp add: usec_per_day_def KEEP_DAYS_def)
  have b: "m (DateStem 92) = None"
    using old [rule_format, of 92 Unparseable] by (simp add: usec_per_day_def KEEP_DAYS_def)
  have c: "m (DateStem 94) = Some [example_article ''a'' 94]"
    using new [rule_format, of 94 "[example_article ''a'' 94]"]
    by (simp add: usec_per_day_def KEEP_DAYS_def)
  have d: "m (DateStem 100) = Some [example_article ''b'' 100]"
    using new [rule_format, of 100 "[example_article ''b'' 100]"]
    by (simp add: usec_per_day_def KEEP_DAYS_def)
  from load a b c d show ?thesis by auto
qed

lemma load_loop_skips:
  "snd (load_loop cutoff (filter (\<lambda>(s, c). is_date s) paths) acc) = snd (load_loop cutoff paths acc) \<and>
   fst (load_loop cutoff (filter (\<lambda>(s, c). is_date s) paths) acc) =
     filter (\<lambda>(s, c). is_date s) (fst (load_loop cutoff paths acc))"
proof (induction paths arbitrary: acc)
  case Nil
  then show ?case by simp
next
  case (Cons p paths)
  obtain s c where p: "p = (s, c)" by (cases p)
  show ?case
  proof (cases s)
    case (OtherStem n)
    with Cons.IH [of acc] p show ?thesis by simp
  next
    case (DateStem d)
    show ?thesis
    proof (cases c)
      case Unparseable
      with Cons.IH [of acc] p DateStem show ?thesis by simp
    next
      case (Parsed arts)
      with Cons.IH [of acc] Cons.IH [of "acc(DateStem d \<mapsto> arts)"] p DateStem
      show ?thesis by (simp add: fun_upd_def)
    qed
  qed
qed

lemma load_loop_raises_iff:
  "snd (load_loop cutoff paths acc) = Inl JSONDecodeError \<longleftrightarrow>
     (\<exists>d. (DateStem d, Unparseable) \<in> set paths \<and> \<not> d * usec_per_day < cutoff)"
proof
  assume raised: "snd (load_loop cutoff paths acc) = Inl JSONDecodeError"
  show "\<exists>d. (DateStem d, Unparseable) \<in> set paths \<and> \<not> d * usec_per_day < cutoff"
  proof (rule ccontr)
    assume "\<not> (\<exists>d. (DateStem d, Unparseable) \<in> set paths \<and> \<not> d * usec_per_day < cutoff)"
    then have "\<forall>d. (DateStem d, Unparseable) \<in> set paths \<longrightarrow> d * usec_per_day < cutoff" by blast
    from load_loop_returns [OF this, of acc] raised show False by auto
  qed
next
  assume "\<exists>d. (DateStem d, Unparseable) \<in> set paths \<and> \<not> d * usec_per_day < cutoff"
  then show "snd (load_loop cutoff paths acc) = Inl JSONDecodeError"
    by (auto intro: load_loop_raises)
qed

text \<open>
  C6. Corruption of the archive is fatal, and only that. \<open>load_recent_articles\<close> ends
  with the exception, returning no dictionary, exactly when some date file within the
  horizon is unparseable; a run that has collected articles then ends with this exception
  and leaves the rendered document as it was (the file of today is excepted:
  \<open>save_articles\<close> has just replaced it). A file whose stem is no date is skipped: with
  or without such files the load ends the same way, with the same dictionary, and does
  the same to the date files; the file stays in the directory and never enters the
  dictionary.
\<close>

theorem archive_corruption_fatal:
  "(snd (load_recent_articles now files) = Inl JSONDecodeError \<longleftrightarrow>
      (\<exists>d. (DateStem d, Unparseable) \<in> set files \<and> \<not> d * usec_per_day < now - KEEP_DAYS * usec_per_day)) \<and>
   snd (load_recent_articles now (filter (\<lambda>(s, c). is_date s) files)) =
      snd (load_recent_articles now files) \<and>
   fst (load_recent_articles now (filter (\<lambda>(s, c). is_date s) files)) =
      filter (\<lambda>(s, c). is_date s) (fst (load_recent_articles now files)) \<and>
   (\<forall>n c. (OtherStem n, c) \<in> set files \<longrightarrow>
      (OtherStem n, c) \<in> set (fst (load_recent_articles now files)) \<and>
      (\<forall>m. snd (load_recent_articles now files) = Inr m \<longrightarrow> m (OtherStem n) = None)) \<and>
   (collect_articles (now div usec_per_day) fetched \<noteq> [] \<longrightarrow>
    (\<exists>d. d \<noteq> now div usec_per_day \<and> (DateStem d, Unparseable) \<in> set (archive w) \<and>
         \<not> d * usec_per_day < now - KEEP_DAYS * usec_per_day) \<longrightarrow>
      snd (main api_key respond generate_html now fetched w) = Some JSONDecodeError \<and>
      output_file (fst (main api_key respond generate_html now fetched w)) = output_file w)"
proof (intro conjI impI allI)
  show "snd (load_recent_articles now files) = Inl JSONDecodeError \<longleftrightarrow>
      (\<exists>d. (DateStem d, Unparseable) \<in> set files \<and> \<not> d * usec_per_day < now - KEEP_DAYS * usec_per_day)"
    unfolding load_recent_articles_def by (rule load_loop_raises_iff)
next
  show "snd (load_recent_articles now (filter (\<lambda>(s, c). is_date s) files)) =
      snd (load_recent_articles now files)"
    unfolding load_recent_articles_def using load_loop_skips by blast
next
  show "fst (load_recent_articles now (filter (\<lambda>(s, c). is_date s) files)) =
      filter (\<lambda>(s, c). is_date s) (fst (load_recent_articles now files))"
    unfolding load_recent_articles_def using load_loop_skips by blast
next
  fix n c assume "(OtherStem n, c) \<in> set files"
  then show "(OtherStem n, c) \<in> set (fst (load_recent_articles now files))"
    unfolding load_recent_articles_def by (rule load_loop_stray)
next
  fix n c m assume "snd (load_recent_articles now files) = Inr m"
  then show "m (OtherStem n) = None"
    unfolding load_recent_articles_def using load_loop_keys by fastforce
next
  assume ne: "collect_articles (now div usec_per_day) fetched \<noteq> []"
    and bad: "\<exists>d. d \<noteq> now div usec_per_day \<and> (DateStem d, Unparseable) \<in> set (archive w) \<and>
         \<not> d * usec_per_day < now - KEEP_DAYS * usec_per_day"
  define TODAY where "TODAY = now div usec_per_day"
  define articles where "articles = collect_articles TODAY fetched"
  define selected where "selected = select_top_articles (classify_articles api_key respond articles) 15"
  define saved where "saved = save_articles selected TODAY (archive w)"
  from bad obtain d where d: "d \<noteq> TODAY" "(DateStem d, Unparseable) \<in> set (archive w)"
    "\<not> d * usec_per_day < now - KEEP_DAYS * usec_per_day"
    unfolding TODAY_def by blast
  have "(DateStem d, Unparseable) \<in> set saved"
    unfolding saved_def save_articles_def using d(1,2) by (intro write_file_keeps) auto
  then have r: "snd (load_recent_articles now saved) = Inl JSONDecodeError"
    unfolding load_recent_articles_def using d(3) by (rule load_loop_raises)
  obtain files' where l: "load_recent_articles now saved = (files', Inl JSONDecodeError)"
    using r by (cases "load_recent_articles now saved") auto
  have "main api_key respond generate_html now fetched w =
      (w\<lparr>requests := requests w + classify_requests api_key articles, archive := files'\<rparr>,
       Some JSONDecodeError)"
    using ne l
    by (simp add: main_def Let_def TODAY_def [symmetric] articles_def [symmetric]
        selected_def [symmetric] saved_def [symmetric])
  then show "snd (main api_key respond generate_html now fetched w) = Some JSONDecodeError"
    and "output_file (fst (main api_key respond generate_html now fetched w)) = output_file w"
    by simp_all
qed

theorem archive_corruption_fatal_witness:
  "snd (load_recent_articles (100 * usec_per_day)
      [(OtherStem ''notes'', Unparseable), (DateStem 99, Unparseable)]) = Inl JSONDecodeError \<and>
   snd (load_recent_articles (100 * usec_per_day)
      [(DateStem 92, Unparseable), (OtherStem ''notes'', Unparseable),
       (DateStem 100, Parsed [example_article ''b'' 100])]) \<noteq> Inl JSONDecodeError \<and>
   (OtherStem ''notes'', Unparseable) \<in> set (fst (load_recent_articles (100 * usec_per_day)
      [(OtherStem ''notes'', Unparseable), (DateStem 99, Unparseable)])) \<and>
   snd (main (Some ''key'') (\<lambda>i batch. Raised) (\<lambda>m t. ''new'') (100 * usec_per_day)
      [example_article ''u'' 100]
      \<lparr>archive = [(DateStem 99, Unparseable)], output_file = Some ''old'', requests = 0\<rparr>)
     = Some JSONDecodeError"
proof -
  let ?files = "[(OtherStem ''notes'', Unparseable), (DateStem 99, Unparseable)]"
  let ?good = "[(DateStem 92, Unparseable), (OtherStem ''notes'', Unparseable),
       (DateStem 100, Parsed [example_article ''b'' 100])]"
  let ?now = "100 * usec_per_day"
  let ?w = "\<lparr>archive = [(DateStem 99, Unparseable)], output_file = Some ''old'', requests = 0\<rparr>"
  have h1: "\<exists>d. (DateStem d, Unparseable) \<in> set ?files \<and>
      \<not> d * usec_per_day < ?now - KEEP_DAYS * usec_per_day"
    by (rule exI [of _ 99]) (simp add: usec_per_day_def KEEP_DAYS_def)
  have h1': "\<not> (\<exists>d. (DateStem d, Unparseable) \<in> set ?good \<and>
      \<not> d * usec_per_day < ?now - KEEP_DAYS * usec_per_day)"
    by (simp add: usec_per_day_def KEEP_DAYS_def)
  have h2: "(OtherStem ''notes'', Unparseable) \<in> set ?files" by simp
  have h3: "collect_articles (?now div usec_per_day) [example_article ''u'' 100] \<noteq> []"
    by (simp add: usec_per_day_def collect_articles_def recent_articles_def primary_window_def
        example_article_def)
  have h4: "\<exists>d. d \<noteq> ?now div usec_per_day \<and> (DateStem d, Unparseable) \<in> set (archive ?w) \<and>
         \<not> d * usec_per_day < ?now - KEEP_DAYS * usec_per_day"
    by (rule exI [of _ 99]) (simp add: usec_per_day_def KEEP_DAYS_def)
  note inst = archive_corruption_fatal [where files = ?files and now = ?now
      and fetched = "[example_article ''u'' 100]" and w = ?w
      and api_key = "Some ''key''" and respond = "\<lambda>i batch. Raised"
      and generate_html = "\<lambda>m t. ''new''"]
  note inst' = archive_corruption_fatal [where files = ?good and now = ?now
      and fetched = "[example_article ''u'' 100]" and w = ?w
      and api_key = "Some ''key''" and respond = "\<lambda>i batch. Raised"
      and generate_html = "\<lambda>m t. ''new''"]
  from inst h1 have a: "snd (load_recent_articles ?now ?files) = Inl JSONDecodeError" by blast
  from inst' h1' have a': "snd (load_recent_articles ?now ?good) \<noteq> Inl JSONDecodeError" by blast
  from inst h2 have b: "(OtherStem ''notes'', Unparseable) \<in> set (fst (load_recent_articles ?now ?files))"
    by blast
  from inst h3 h4 have c: "snd (main (Some ''key'') (\<lambda>i batch. Raised) (\<lambda>m t. ''new'') ?now
      [example_article ''u'' 100] ?w) = Some JSONDecodeError"
    by blast
  from a a' b c show ?thesis by blast
qed

section \<open>Properties of the balanced selection\<close>

lemma set_first_seen [simp]: "set (first_seen xs) = set xs"
  by (induction xs rule: first_seen.induct) auto

lemma distinct_first_seen [simp]: "distinct (first_seen xs)"
  by (induction xs rule: first_seen.induct) auto

lemma keys_add_to_cat:
  "map fst (add_to_cat c a by_cat) =
     (if c \<in> fst ` set by_cat then map fst by_cat else map fst by_cat @ [c])"
  by (induction c a by_cat rule: add_to_cat.induct) auto

lemma keyset_add_to_cat: "fst ` set (add_to_cat c a by_cat) = insert c (fst ` set by_cat)"
  by (induction c a by_cat rule: add_to_cat.induct) auto

lemma keys_group_by_cat:
  "map fst (group_by_cat by_cat xs) =
     map fst by_cat @ first_seen (filter (\<lambda>c. c \<notin> fst ` set by_cat) (map cat_of xs))"
proof (induction xs arbitrary: by_cat)
  case Nil
  then show ?case by simp
next
  case (Cons a as)
  show ?case
  proof (cases "cat_of a \<in> fst ` set by_cat")
    case True
    then have "fst ` set (add_to_cat (cat_of a) a by_cat) = fst ` set by_cat"
      by (auto simp: keyset_add_to_cat)
    with True show ?thesis
      by (simp add: Cons.IH keys_add_to_cat)
  next
    case False
    have k: "fst ` set (add_to_cat (cat_of a) a by_cat) = insert (cat_of a) (fst ` set by_cat)"
      by (rule keyset_add_to_cat)
    have "filter (\<lambda>c. c \<notin> insert (cat_of a) (fst ` set by_cat)) (map cat_of as) =
          filter (\<lambda>y. y \<noteq> cat_of a) (filter (\<lambda>c. c \<notin> fst ` set by_cat) (map cat_of as))"
      by (auto intro: filter_cong)
    with False k show ?thesis
      by (simp add: Cons.IH keys_add_to_cat)
  qed
qed

lemma map_of_add_to_cat:
  "map_of (add_to_cat c a by_cat) =
     (map_of by_cat)(c \<mapsto> (case map_of by_cat c of None \<Rightarrow> [a] | Some g \<Rightarrow> g @ [a]))"
  by (induction c a by_cat rule: add_to_cat.induct) (auto simp: fun_eq_iff)

lemma map_of_group_by_cat:
  "map_of (group_by_cat by_cat xs) c =
     (if filter (\<lambda>a. cat_of a = c) xs = [] then map_of by_cat c
      else Some ((case map_of by_cat c of None \<Rightarrow> [] | Some g \<Rightarrow> g) @ filter (\<lambda>a. cat_of a = c) xs))"
proof (induction xs arbitrary: by_cat)
  case Nil
  then show ?case by simp
next
  case (Cons a as)
  show ?case
    by (simp add: Cons.IH map_of_add_to_cat split: option.splits)
qed

lemma distinct_keys_group: "distinct (map fst (group_by_cat [] xs))"
  by (simp add: keys_group_by_cat)

lemma keys_group: "map fst (group_by_cat [] xs) = first_seen (map cat_of xs)"
  by (simp add: keys_group_by_cat)

lemma group_entry:
  assumes "(c, g) \<in> set (group_by_cat [] xs)"
  shows "g = filter (\<lambda>a. cat_of a = c) xs \<and> g \<noteq> []"
proof -
  from assms have "map_of (group_by_cat [] xs) c = Some g"
    by (simp add: distinct_keys_group)
  then show ?thesis
    by (simp add: map_of_group_by_cat split: if_splits)
qed

lemma group_by_cat_eq:
  "group_by_cat [] xs = map (\<lambda>c. (c, filter (\<lambda>a. cat_of a = c) xs)) (first_seen (map cat_of xs))"
proof -
  have "group_by_cat [] xs = map (\<lambda>p. (fst p, snd p)) (group_by_cat [] xs)" by simp
  also have "\<dots> = map (\<lambda>p. (fst p, filter (\<lambda>a. cat_of a = fst p) xs)) (group_by_cat [] xs)"
    by (rule map_cong) (auto dest: group_entry)
  also have "\<dots> = map (\<lambda>c. (c, filter (\<lambda>a. cat_of a = c) xs)) (map fst (group_by_cat [] xs))"
    by simp
  finally show ?thesis by (simp add: keys_group)
qed

lemma groups_ok_group: "groups_ok (group_by_cat [] xs)"
  unfolding groups_ok_def by (auto simp: distinct_keys_group dest: group_entry)

lemma rr_inv_init: "rr_inv by_cat [] (\<lambda>_. 0)"
  by (auto simp: rr_inv_def)

lemma rr_inv_step:
  assumes ok: "groups_ok by_cat" and inv: "rr_inv by_cat selected idx"
    and mem: "(c, g) \<in> set by_cat" and lt: "idx c < length g"
  shows "rr_inv by_cat (selected @ [g ! idx c]) (idx(c := idx c + 1))"
proof -
  have cat: "cat_of (g ! idx c) = c"
    using ok mem lt unfolding groups_ok_def by (metis (mono_tags, lifting) case_prodD nth_mem)
  have uniq: "g' = g" if "(c, g') \<in> set by_cat" for g'
    using ok mem that unfolding groups_ok_def by (meson eq_key_imp_eq_value)
  show ?thesis
    unfolding rr_inv_def
  proof (intro conjI ballI)
    fix p assume p: "p \<in> set by_cat"
    obtain c' g' where cg: "p = (c', g')" by (cases p)
    from inv p cg have old: "idx c' \<le> length g'"
      "filter (\<lambda>a. cat_of a = c') selected = take (idx c') g'"
      unfolding rr_inv_def by auto
    show "case p of (c', g') \<Rightarrow> (idx(c := idx c + 1)) c' \<le> length g' \<and>
        filter (\<lambda>a. cat_of a = c') (selected @ [g ! idx c]) = take ((idx(c := idx c + 1)) c') g'"
    proof (cases "c' = c")
      case True
      with p cg uniq have "g' = g" by simp
      with True old lt cat cg show ?thesis
        by (simp add: take_Suc_conv_app_nth)
    next
      case False
      with old cat cg show ?thesis by simp
    qed
  next
    fix a assume "a \<in> set (selected @ [g ! idx c])"
    then show "cat_of a \<in> fst ` set by_cat"
      using inv mem cat unfolding rr_inv_def by (auto simp: rev_image_eqI)
  qed
qed

lemma sweep_inv:
  "groups_ok by_cat \<Longrightarrow> set rest \<subseteq> set by_cat \<Longrightarrow> rr_inv by_cat selected idx \<Longrightarrow>
   int (length selected) \<le> max_count \<Longrightarrow>
   sweep max_count rest (selected, idx, added) = (selected', idx', added') \<Longrightarrow>
     rr_inv by_cat selected' idx' \<and> (\<forall>c. idx c \<le> idx' c) \<and> int (length selected') \<le> max_count"
proof (induction rest arbitrary: selected idx added)
  case Nil
  then show ?case by simp
next
  case (Cons p rest)
  obtain c g where p: "p = (c, g)" by (cases p)
  from Cons.prems(2) p have mem: "(c, g) \<in> set by_cat" and sub: "set rest \<subseteq> set by_cat" by auto
  show ?case
  proof (cases "idx c < length g \<and> int (length selected) < max_count")
    case True
    with Cons.prems(5) p have sw:
      "sweep max_count rest (selected @ [g ! idx c], idx(c := idx c + 1), True) = (selected', idx', added')"
      by simp
    have inv': "rr_inv by_cat (selected @ [g ! idx c]) (idx(c := idx c + 1))"
      using rr_inv_step [OF Cons.prems(1) Cons.prems(3) mem] True by simp
    have le': "int (length (selected @ [g ! idx c])) \<le> max_count" using True by simp
    from Cons.IH [OF Cons.prems(1) sub inv' le' sw]
    have r: "rr_inv by_cat selected' idx'" "\<forall>c'. (idx(c := idx c + 1)) c' \<le> idx' c'"
      "int (length selected') \<le> max_count" by auto
    have "idx c' \<le> idx' c'" for c'
      using r(2) [rule_format, of c'] by (cases "c' = c") auto
    with r show ?thesis by simp
  next
    case False
    with Cons.prems(5) p have sw:
      "sweep max_count rest (selected, idx, added) = (selected', idx', added')" by auto
    from Cons.IH [OF Cons.prems(1) sub Cons.prems(3) Cons.prems(4) sw] show ?thesis .
  qed
qed

lemma sweep_keeps_added:
  "sweep max_count rest (selected, idx, True) = (selected', idx', added') \<Longrightarrow> added'"
  by (induction rest arbitrary: selected idx) (auto split: if_splits)

lemma sweep_not_added:
  "sweep max_count rest (selected, idx, added) = (selected', idx', False) \<Longrightarrow>
     selected' = selected \<and> idx' = idx \<and>
     (\<forall>(c, g)\<in>set rest. \<not> (idx c < length g \<and> int (length selected) < max_count))"
proof (induction rest arbitrary: selected idx added)
  case Nil
  then show ?case by simp
next
  case (Cons p rest)
  obtain c g where p: "p = (c, g)" by (cases p)
  show ?case
  proof (cases "idx c < length g \<and> int (length selected) < max_count")
    case True
    with Cons.prems p have
      "sweep max_count rest (selected @ [g ! idx c], idx(c := idx c + 1), True) = (selected', idx', False)"
      by simp
    from sweep_keeps_added [OF this] show ?thesis by simp
  next
    case False
    with Cons.prems p have
      "sweep max_count rest (selected, idx, added) = (selected', idx', False)" by auto
    from Cons.IH [OF this] False p show ?thesis by auto
  qed
qed

lemma length_by_keys:
  "distinct cs \<Longrightarrow> \<forall>a\<in>set xs. f a \<in> set cs \<Longrightarrow>
     length xs = (\<Sum>c\<leftarrow>cs. length (filter (\<lambda>a. f a = c) xs))"
proof (induction cs arbitrary: xs)
  case Nil
  then show ?case by simp
next
  case (Cons c cs)
  let ?rest = "filter (\<lambda>a. f a \<noteq> c) xs"
  have "\<forall>a\<in>set ?rest. f a \<in> set cs" using Cons.prems(2) by auto
  with Cons.IH [of ?rest] Cons.prems(1)
  have "length ?rest = (\<Sum>c'\<leftarrow>cs. length (filter (\<lambda>a. f a = c') ?rest))" by simp
  also have "\<dots> = (\<Sum>c'\<leftarrow>cs. length (filter (\<lambda>a. f a = c') xs))"
  proof (rule arg_cong [where f = sum_list], rule map_cong [OF refl])
    fix c' assume "c' \<in> set cs"
    with Cons.prems(1) have "c' \<noteq> c" by auto
    then have "filter (\<lambda>a. f a = c') ?rest = filter (\<lambda>a. f a = c') xs"
      by (auto intro: filter_cong)
    then show "length (filter (\<lambda>a. f a = c') ?rest) = length (filter (\<lambda>a. f a = c') xs)" by simp
  qed
  finally have "length ?rest = (\<Sum>c'\<leftarrow>cs. length (filter (\<lambda>a. f a = c') xs))" .
  moreover have "length xs = length (filter (\<lambda>a. f a = c) xs) + length ?rest"
    using sum_length_filter_compl [of "\<lambda>a. f a = c" xs] by simp
  ultimately show ?case by simp
qed

lemma rr_exhausted:
  assumes ok: "groups_ok by_cat" and inv: "rr_inv by_cat selected idx"
    and ex: "\<forall>(c, g)\<in>set by_cat. \<not> idx c < length g"
  shows "length selected = (\<Sum>p\<leftarrow>by_cat. length (snd p))"
proof -
  have "length selected = (\<Sum>c\<leftarrow>map fst by_cat. length (filter (\<lambda>a. cat_of a = c) selected))"
    using ok inv unfolding groups_ok_def rr_inv_def
    by (intro length_by_keys) auto
  also have "\<dots> = (\<Sum>p\<leftarrow>by_cat. length (filter (\<lambda>a. cat_of a = fst p) selected))"
    by (simp add: comp_def)
  also have "\<dots> = (\<Sum>p\<leftarrow>by_cat. length (snd p))"
  proof (rule arg_cong [where f = sum_list], rule map_cong [OF refl])
    fix p assume p: "p \<in> set by_cat"
    obtain c g where cg: "p = (c, g)" by (cases p)
    from inv p cg have "idx c \<le> length g" "filter (\<lambda>a. cat_of a = c) selected = take (idx c) g"
      unfolding rr_inv_def by auto
    moreover from ex p cg have "\<not> idx c < length g" by auto
    ultimately show "length (filter (\<lambda>a. cat_of a = fst p) selected) = length (snd p)"
      using cg by simp
  qed
  finally show ?thesis .
qed

lemma group_total: "(\<Sum>p\<leftarrow>group_by_cat [] xs. length (snd p)) = length xs"
proof -
  have "(\<Sum>p\<leftarrow>group_by_cat [] xs. length (snd p)) =
        (\<Sum>c\<leftarrow>first_seen (map cat_of xs). length (filter (\<lambda>a. cat_of a = c) xs))"
    by (subst group_by_cat_eq) (simp add: comp_def)
  also have "\<dots> = length xs"
    by (rule length_by_keys [symmetric]) auto
  finally show ?thesis .
qed

lemma round_robin_result:
  assumes ok: "groups_ok by_cat"
    and total: "max_count \<le> int (\<Sum>p\<leftarrow>by_cat. length (snd p))"
  shows "rr_inv by_cat selected idx \<Longrightarrow> int (length selected) \<le> max_count \<Longrightarrow>
     \<exists>idx'. rr_inv by_cat (round_robin max_count by_cat (selected, idx)) idx' \<and>
            (\<forall>c. idx c \<le> idx' c) \<and>
            int (length (round_robin max_count by_cat (selected, idx))) = max_count"
proof (induction "nat (max_count - int (length selected))" arbitrary: selected idx rule: less_induct)
  case less
  show ?case
  proof (cases "int (length selected) < max_count")
    case False
    with less.prems have "round_robin max_count by_cat (selected, idx) = selected"
      "int (length selected) = max_count"
      by (simp_all add: round_robin.simps)
    with less.prems(1) show ?thesis by auto
  next
    case True
    obtain selected' idx' added where
      sw: "sweep max_count by_cat (selected, idx, False) = (selected', idx', added)"
      by (cases "sweep max_count by_cat (selected, idx, False)") auto
    from sweep_inv [OF ok subset_refl less.prems(1) less.prems(2) sw]
    have inv': "rr_inv by_cat selected' idx'" and mono: "\<forall>c. idx c \<le> idx' c"
      and le': "int (length selected') \<le> max_count" by auto
    have added: added
    proof (rule ccontr)
      assume "\<not> added"
      with sw have "sweep max_count by_cat (selected, idx, False) = (selected', idx', False)" by simp
      from sweep_not_added [OF this] True
      have "\<forall>(c, g)\<in>set by_cat. \<not> idx c < length g" by auto
      from rr_exhausted [OF ok less.prems(1) this] total True show False by simp
    qed
    with sweep_grows [OF sw] have grow: "length selected < length selected'" by simp
    have unfold: "round_robin max_count by_cat (selected, idx) =
        round_robin max_count by_cat (selected', idx')"
      using True sw added by (subst round_robin.simps) simp
    have "nat (max_count - int (length selected')) < nat (max_count - int (length selected))"
      using grow True by simp
    from less.hyps [OF this inv' le'] obtain idx'' where
      r: "rr_inv by_cat (round_robin max_count by_cat (selected', idx')) idx''"
         "\<forall>c. idx' c \<le> idx'' c"
         "int (length (round_robin max_count by_cat (selected', idx'))) = max_count"
      by blast
    have "\<forall>c. idx c \<le> idx'' c" using mono r(2) by (meson order_trans)
    with r unfold show ?thesis by auto
  qed
qed

text \<open>
  C3. Balanced selection bound. \<open>max_count\<close> is a count (the one call passes 15). For
  every list of articles and every such \<open>max_count\<close>, the result of
  \<open>select_top_articles\<close> has exactly \<open>min(max_count, len(articles))\<close> elements; in
  particular, when the input is longer than \<open>max_count\<close>, the round robin reaches
  \<open>max_count\<close> articles before the categories are exhausted.
\<close>

theorem select_top_articles_length:
  assumes count: "0 \<le> max_count"
  shows "int (length (select_top_articles articles max_count)) = min max_count (int (length articles)) \<and>
     (max_count < int (length articles) \<longrightarrow>
        int (length (select_top_articles articles max_count)) = max_count)"
proof (cases "int (length articles) \<le> max_count")
  case True
  then show ?thesis by (simp add: select_top_articles_def)
next
  case False
  have "max_count \<le> int (\<Sum>p\<leftarrow>group_by_cat [] articles. length (snd p))"
    using False by (simp add: group_total)
  from round_robin_result [OF groups_ok_group this rr_inv_init] count
  have "int (length (round_robin max_count (group_by_cat [] articles) ([], \<lambda>_. 0))) = max_count"
    by auto
  with False show ?thesis by (simp add: select_top_articles_def)
qed

lemma sweep_mono:
  "sweep max_count rest (selected, idx, added) = (selected', idx', added') \<Longrightarrow> idx c \<le> idx' c"
proof (induction rest arbitrary: selected idx added)
  case Nil
  then show ?case by simp
next
  case (Cons p rest)
  obtain c' g where p: "p = (c', g)" by (cases p)
  show ?case
  proof (cases "idx c' < length g \<and> int (length selected) < max_count")
    case True
    with Cons.prems p have
      "sweep max_count rest (selected @ [g ! idx c'], idx(c' := idx c' + 1), True) = (selected', idx', added')"
      by simp
    from Cons.IH [OF this] show ?thesis by (cases "c = c'") auto
  next
    case False
    with Cons.prems p have "sweep max_count rest (selected, idx, added) = (selected', idx', added')"
      by auto
    from Cons.IH [OF this] show ?thesis .
  qed
qed

lemma sweep_first:
  "\<forall>(c, g)\<in>set rest. g \<noteq> [] \<Longrightarrow> int (length selected) + int (length rest) \<le> max_count \<Longrightarrow>
   sweep max_count rest (selected, idx, added) = (selected', idx', added') \<Longrightarrow>
     \<forall>c\<in>fst ` set rest. 1 \<le> idx' c"
proof (induction rest arbitrary: selected idx added)
  case Nil
  then show ?case by simp
next
  case (Cons p rest)
  obtain c g where p: "p = (c, g)" by (cases p)
  from Cons.prems(1) p have g: "g \<noteq> []" and tl: "\<forall>(c, g)\<in>set rest. g \<noteq> []" by auto
  from Cons.prems(2) have lt: "int (length selected) < max_count" by simp
  show ?case
  proof (cases "idx c < length g")
    case True
    with lt Cons.prems(3) p have sw:
      "sweep max_count rest (selected @ [g ! idx c], idx(c := idx c + 1), True) = (selected', idx', added')"
      by simp
    have "int (length (selected @ [g ! idx c])) + int (length rest) \<le> max_count"
      using Cons.prems(2) by simp
    from Cons.IH [OF tl this sw] have rest: "\<forall>c\<in>fst ` set rest. 1 \<le> idx' c" .
    from sweep_mono [OF sw, of c] have "1 \<le> idx' c" by simp
    with rest p show ?thesis by simp
  next
    case False
    with Cons.prems(3) p have sw:
      "sweep max_count rest (selected, idx, added) = (selected', idx', added')" by simp
    have "int (length selected) + int (length rest) \<le> max_count"
      using Cons.prems(2) by simp
    from Cons.IH [OF tl this sw] have rest: "\<forall>c\<in>fst ` set rest. 1 \<le> idx' c" .
    from False g have "1 \<le> idx c" by (cases g) auto
    with sweep_mono [OF sw, of c] have "1 \<le> idx' c" by simp
    with rest p show ?thesis by simp
  qed
qed

lemma count_list_filter: "P a \<Longrightarrow> count_list (filter P xs) a = count_list xs a"
  by (induction xs) auto

lemma count_list_take: "count_list (take n xs) a \<le> count_list xs a"
proof -
  have "count_list (take n xs @ drop n xs) a = count_list (take n xs) a + count_list (drop n xs) a"
    by (rule count_list_append)
  then show ?thesis by simp
qed

lemma rr_inv_counts:
  assumes inv: "rr_inv (group_by_cat [] xs) selected idx"
  shows "count_list selected a \<le> count_list xs a"
proof (cases "cat_of a \<in> cat_of ` set xs")
  case True
  then have "(cat_of a, filter (\<lambda>b. cat_of b = cat_of a) xs) \<in> set (group_by_cat [] xs)"
    by (subst group_by_cat_eq) auto
  with inv have "filter (\<lambda>b. cat_of b = cat_of a) selected =
      take (idx (cat_of a)) (filter (\<lambda>b. cat_of b = cat_of a) xs)"
    unfolding rr_inv_def by auto
  then have "count_list (filter (\<lambda>b. cat_of b = cat_of a) selected) a
      \<le> count_list (filter (\<lambda>b. cat_of b = cat_of a) xs) a"
    by (simp add: count_list_take)
  then show ?thesis by (simp add: count_list_filter)
next
  case False
  have "fst ` set (group_by_cat [] xs) = cat_of ` set xs"
    using keys_group [of xs] by (metis list.set_map set_first_seen)
  with inv False have "a \<notin> set selected" unfolding rr_inv_def by auto
  then show ?thesis by (simp add: count_notin)
qed

text \<open>
  C10. Fairness floor. When the input is longer than \<open>max_count\<close> and has at most
  \<open>max_count\<close> distinct categories, the articles selected of each category present are
  a non-empty initial part of that category's articles in input order; so every category
  contributes at least one article, in the original relative order, and no article is
  selected more often than it occurs in the input.
\<close>

theorem fairness_floor:
  assumes long: "max_count < int (length articles)"
    and cats: "int (card (cat_of ` set articles)) \<le> max_count"
  shows "(\<forall>c\<in>cat_of ` set articles. \<exists>n\<ge>1.
            filter (\<lambda>a. cat_of a = c) (select_top_articles articles max_count) =
            take n (filter (\<lambda>a. cat_of a = c) articles)) \<and>
         (\<forall>a. count_list (select_top_articles articles max_count) a \<le> count_list articles a)"
proof -
  define G where "G = group_by_cat [] articles"
  have ok: "groups_ok G" unfolding G_def by (rule groups_ok_group)
  have keys: "fst ` set G = cat_of ` set articles"
    unfolding G_def using keys_group [of articles] by (metis list.set_map set_first_seen)
  have "length G = length (first_seen (map cat_of articles))"
    unfolding G_def using keys_group [of articles] by (metis length_map)
  also have "\<dots> = card (set (first_seen (map cat_of articles)))"
    by (rule distinct_card [symmetric]) simp
  finally have lenG: "length G = card (cat_of ` set articles)" by simp
  have pos: "0 < max_count"
  proof (cases articles)
    case Nil
    with long cats show ?thesis by simp
  next
    case (Cons a as)
    then have "cat_of ` set articles \<noteq> {}" by simp
    then have "0 < card (cat_of ` set articles)" by (simp add: card_gt_0_iff)
    with cats show ?thesis by simp
  qed
  have sel: "select_top_articles articles max_count = round_robin max_count G ([], \<lambda>_. 0)"
    using long by (simp add: select_top_articles_def G_def)
  have total: "max_count \<le> int (\<Sum>p\<leftarrow>G. length (snd p))"
    unfolding G_def using long by (simp add: group_total)
  obtain s1 i1 added where sw: "sweep max_count G ([], \<lambda>_. 0, False) = (s1, i1, added)"
    by (cases "sweep max_count G ([], \<lambda>_. 0, False)") auto
  have "int (length ([] :: article list)) \<le> max_count" using pos by simp
  from sweep_inv [OF ok subset_refl rr_inv_init this sw]
  have inv1: "rr_inv G s1 i1" and le1: "int (length s1) \<le> max_count" by auto
  have nonempty: "\<forall>(c, g)\<in>set G. g \<noteq> []"
    unfolding G_def by (auto dest: group_entry)
  have "int (length ([] :: article list)) + int (length G) \<le> max_count"
    using cats lenG by simp
  from sweep_first [OF nonempty this sw] have first: "\<forall>c\<in>fst ` set G. 1 \<le> i1 c" .
  have "\<exists>idx'. rr_inv G (round_robin max_count G ([], \<lambda>_. 0)) idx' \<and> (\<forall>c. i1 c \<le> idx' c)"
  proof (cases added)
    case False
    with sw pos have "round_robin max_count G ([], \<lambda>_. 0) = s1"
      by (subst round_robin.simps) simp
    with inv1 show ?thesis by auto
  next
    case True
    with sw pos have "round_robin max_count G ([], \<lambda>_. 0) = round_robin max_count G (s1, i1)"
      by (subst round_robin.simps) simp
    with round_robin_result [OF ok total inv1 le1] show ?thesis by auto
  qed
  then obtain idx' where inv: "rr_inv G (select_top_articles articles max_count) idx'"
    and ge: "\<forall>c. i1 c \<le> idx' c"
    unfolding sel by blast
  have "\<exists>n\<ge>1. filter (\<lambda>a. cat_of a = c) (select_top_articles articles max_count) =
            take n (filter (\<lambda>a. cat_of a = c) articles)"
    if c: "c \<in> cat_of ` set articles" for c
  proof -
    from c have mem: "(c, filter (\<lambda>a. cat_of a = c) articles) \<in> set G"
      unfolding G_def by (subst group_by_cat_eq) auto
    with inv have "filter (\<lambda>a. cat_of a = c) (select_top_articles articles max_count) =
        take (idx' c) (filter (\<lambda>a. cat_of a = c) articles)"
      unfolding rr_inv_def by auto
    moreover from first c keys ge have "1 \<le> idx' c" by (metis order_trans)
    ultimately show ?thesis by blast
  qed
  moreover have "count_list (select_top_articles articles max_count) a \<le> count_list articles a" for a
    using rr_inv_counts [OF inv [unfolded G_def]] .
  ultimately show ?thesis by blast
qed

text \<open>
  C4. Round-robin fairness. For an input whose categories are, in the order in which they
  are first seen, A with 10 articles, B with 2 and C with 1, \<open>select_top_articles\<close> with
  \<open>max_count = 5\<close> returns the first of A, the first of B, the one of C, the second of A
  and the second of B: two of A, two of B and one of C, each the earliest of its category.
\<close>

theorem round_robin_fairness:
  assumes keys: "first_seen (map cat_of articles) = [A, B, C]"
    and nA: "length (filter (\<lambda>a. cat_of a = A) articles) = 10"
    and nB: "length (filter (\<lambda>a. cat_of a = B) articles) = 2"
    and nC: "length (filter (\<lambda>a. cat_of a = C) articles) = 1"
  shows "select_top_articles articles 5 =
      [filter (\<lambda>a. cat_of a = A) articles ! 0, filter (\<lambda>a. cat_of a = B) articles ! 0,
       filter (\<lambda>a. cat_of a = C) articles ! 0, filter (\<lambda>a. cat_of a = A) articles ! 1,
       filter (\<lambda>a. cat_of a = B) articles ! 1] \<and>
     filter (\<lambda>a. cat_of a = A) (select_top_articles articles 5) =
       take 2 (filter (\<lambda>a. cat_of a = A) articles) \<and>
     filter (\<lambda>a. cat_of a = B) (select_top_articles articles 5) =
       take 2 (filter (\<lambda>a. cat_of a = B) articles) \<and>
     filter (\<lambda>a. cat_of a = C) (select_top_articles articles 5) =
       take 1 (filter (\<lambda>a. cat_of a = C) articles)"
proof -
  define fa where "fa = filter (\<lambda>a. cat_of a = A) articles"
  define fb where "fb = filter (\<lambda>a. cat_of a = B) articles"
  define fc where "fc = filter (\<lambda>a. cat_of a = C) articles"
  have "distinct [A, B, C]" using distinct_first_seen [of "map cat_of articles"] keys by simp
  then have ne: "A \<noteq> B" "A \<noteq> C" "B \<noteq> C" "B \<noteq> A" "C \<noteq> A" "C \<noteq> B" by auto
  obtain a0 a1 fa' where fa: "fa = a0 # a1 # fa'"
    using nA unfolding fa_def [symmetric] by (cases fa; cases "tl fa") auto
  obtain b0 b1 where fb: "fb = [b0, b1]"
    using nB unfolding fb_def [symmetric] by (cases fb; cases "tl fb") auto
  obtain c0 where fc: "fc = [c0]"
    using nC unfolding fc_def [symmetric] by (cases fc) auto
  have catA: "cat_of a0 = A" "cat_of a1 = A"
    using fa filter_set [of "\<lambda>a. cat_of a = A" articles] unfolding fa_def
    by (metis (mono_tags, lifting) filter_eq_ConsD)+
  have catB: "cat_of b0 = B" "cat_of b1 = B"
    using fb unfolding fb_def by (metis (mono_tags, lifting) filter_eq_ConsD)+
  have catC: "cat_of c0 = C"
    using fc unfolding fc_def by (metis (mono_tags, lifting) filter_eq_ConsD)
  have G: "group_by_cat [] articles = [(A, fa), (B, fb), (C, fc)]"
    by (subst group_by_cat_eq) (simp add: keys fa_def fb_def fc_def)
  have "length fa \<le> length articles" unfolding fa_def by simp
  with nA have long: "\<not> int (length articles) \<le> 5" unfolding fa_def by simp
  have "\<exists>i1. sweep 5 [(A, fa), (B, fb), (C, fc)] ([], \<lambda>_. 0, False) = ([a0, b0, c0], i1, True) \<and>
      i1 A = 1 \<and> i1 B = 1 \<and> i1 C = 1"
    by (simp add: fa fb fc ne)
  then obtain i1 where s1: "sweep 5 [(A, fa), (B, fb), (C, fc)] ([], \<lambda>_. 0, False) = ([a0, b0, c0], i1, True)"
    and i1: "i1 A = 1" "i1 B = 1" "i1 C = 1" by blast
  have "\<exists>i2. sweep 5 [(A, fa), (B, fb), (C, fc)] ([a0, b0, c0], i1, False) =
      ([a0, b0, c0, a1, b1], i2, True)"
    using i1 by (simp add: fa fb fc ne)
  then obtain i2 where s2: "sweep 5 [(A, fa), (B, fb), (C, fc)] ([a0, b0, c0], i1, False) =
      ([a0, b0, c0, a1, b1], i2, True)" by blast
  have "round_robin 5 [(A, fa), (B, fb), (C, fc)] ([], \<lambda>_. 0) =
      round_robin 5 [(A, fa), (B, fb), (C, fc)] ([a0, b0, c0], i1)"
    by (subst round_robin.simps) (simp del: sweep.simps add: s1)
  also have "\<dots> = round_robin 5 [(A, fa), (B, fb), (C, fc)] ([a0, b0, c0, a1, b1], i2)"
    by (subst round_robin.simps) (simp del: sweep.simps add: s2)
  also have "\<dots> = [a0, b0, c0, a1, b1]"
    by (subst round_robin.simps) simp
  finally have res: "select_top_articles articles 5 = [a0, b0, c0, a1, b1]"
    using long by (simp add: select_top_articles_def G)
  show ?thesis
    unfolding res fa_def [symmetric] fb_def [symmetric] fc_def [symmetric]
    by (simp add: fa fb fc catA catB catC ne)
qed

lemma cat_of_classified [simp]: "cat_of (classified_article u c) = c"
  by (simp add: cat_of_def classified_article_def)

theorem select_top_articles_length_witness:
  "int (length (select_top_articles example_feed 5)) = 5 \<and>
   int (length (select_top_articles example_feed 20)) = 13 \<and>
   int (length (select_top_articles example_feed 0)) = 0"
proof -
  have len: "length example_feed = 13" by (simp add: example_feed_def)
  have c: "(0::int) \<le> 5" "(0::int) \<le> 20" "(0::int) \<le> 0" by simp_all
  show ?thesis
    using len select_top_articles_length [OF c(1), of example_feed]
      select_top_articles_length [OF c(2), of example_feed]
      select_top_articles_length [OF c(3), of example_feed]
    by simp
qed

theorem round_robin_fairness_witness:
  "select_top_articles example_feed 5 =
     [classified_article ''a1'' ''A'', classified_article ''b1'' ''B'',
      classified_article ''c1'' ''C'', classified_article ''a2'' ''A'',
      classified_article ''b2'' ''B'']"
proof -
  have k: "first_seen (map cat_of example_feed) = [''A'', ''B'', ''C'']"
    by (simp add: example_feed_def)
  have fa: "filter (\<lambda>a. cat_of a = ''A'') example_feed =
      [classified_article ''a1'' ''A'', classified_article ''a2'' ''A'',
       classified_article ''a3'' ''A'', classified_article ''a4'' ''A'',
       classified_article ''a5'' ''A'', classified_article ''a6'' ''A'',
       classified_article ''a7'' ''A'', classified_article ''a8'' ''A'',
       classified_article ''a9'' ''A'', classified_article ''a10'' ''A'']"
    by (simp add: example_feed_def)
  have fb: "filter (\<lambda>a. cat_of a = ''B'') example_feed =
      [classified_article ''b1'' ''B'', classified_article ''b2'' ''B'']"
    by (simp add: example_feed_def)
  have fc: "filter (\<lambda>a. cat_of a = ''C'') example_feed = [classified_article ''c1'' ''C'']"
    by (simp add: example_feed_def)
  have n: "length (filter (\<lambda>a. cat_of a = ''A'') example_feed) = 10"
    "length (filter (\<lambda>a. cat_of a = ''B'') example_feed) = 2"
    "length (filter (\<lambda>a. cat_of a = ''C'') example_feed) = 1"
    by (simp_all add: fa fb fc)
  from round_robin_fairness [OF k n] show ?thesis
    by (simp add: fa fb fc)
qed

theorem fairness_floor_witness:
  "\<exists>n\<ge>1. filter (\<lambda>a. cat_of a = ''C'') (select_top_articles example_feed 5) =
          take n (filter (\<lambda>a. cat_of a = ''C'') example_feed)"
proof -
  have len: "5 < int (length example_feed)" by (simp add: example_feed_def)
  have "cat_of ` set example_feed = {''A'', ''B'', ''C''}"
    by (auto simp: example_feed_def)
  then have cats: "int (card (cat_of ` set example_feed)) \<le> 5" and mem: "''C'' \<in> cat_of ` set example_feed"
    by simp_all
  from fairness_floor [OF len cats] mem show ?thesis by blast
qed

end
